theory Spec2Isabelle
  imports Complex_Main "HOL-Library.Multiset"
begin

section \<open>The layout loop and the drop zones of \<open>MindMapRenderer\<close>\<close>

text \<open>
  Pixel coordinates are JavaScript numbers. They are modelled as real numbers with exact
  arithmetic; the properties below are about which branch a comparison selects and which
  array index is read, not about rounding. What the browser measures (the element under the
  pointer, bounding rectangles, the device pixel ratio) is an input of the model.
\<close>

subsection \<open>\<open>scheduleConnectionsRender\<close>: the bounded normalisation loop\<close>

text \<open>
  One animation frame callback of \<open>scheduleConnectionsRender\<close> reads \<open>dragActive\<close>, runs
  \<open>normalizeAllLayouts()\<close> and \<open>validateSymmetry()\<close> (their disjunction is \<open>changed\<close>), and
  either schedules the next frame after incrementing \<open>normalizePasses\<close>, or resets the
  counter and draws the connectors. The environment of frame \<open>k\<close> is what that frame
  observes.
\<close>

record frame_env =
  dragActive :: bool
  changed :: bool

text \<open>
  \<open>settle env p k\<close> runs the callbacks from frame \<open>k\<close> on, with \<open>normalizePasses = p\<close>,
  until one of them calls \<open>renderConnections()\<close>. It returns the value of
  \<open>normalizePasses\<close> left behind and the index of the first frame after the loop.
\<close>

function settle :: "(nat \<Rightarrow> frame_env) \<Rightarrow> nat \<Rightarrow> nat \<Rightarrow> nat \<times> nat" where
  "settle env p k =
     (if \<not> dragActive (env k) then
        (if changed (env k) \<and> p < 3 then settle env (p + 1) (k + 1)
         else (0, k + 1))
      else (p, k + 1))"
  by pat_completeness auto
termination
  by (relation "measure (\<lambda>(env, p, k). 3 - p)") auto

declare settle.simps [simp del]

subsection \<open>\<open>validateSymmetry\<close>\<close>

record DOMRect =
  rect_left :: real
  rect_top :: real
  rect_width :: real
  rect_height :: real

text \<open>\<open>rect.bottom\<close> of a rectangle returned by \<open>getBoundingClientRect\<close> (its height is
  not negative).\<close>

definition rect_bottom :: "DOMRect \<Rightarrow> real" where
  "rect_bottom r = rect_top r + rect_height r"

text \<open>
  What \<open>validateSymmetry\<close> reads of one \<open>.mindmap-node-wrapper\<close>: the rectangle of its own
  card (\<open>:scope > .mindmap-node\<close>, absent when the query returns null) and, when it has a
  \<open>.node-children\<close> container, one entry per child wrapper: the rectangle of that child's
  card, or \<open>None\<close> when \<open>child.querySelector('.mindmap-node')\<close> is null.
\<close>

record wrapper_view =
  card_rect :: "DOMRect option"
  childCards :: "DOMRect option list option"

text \<open>\<open>window.devicePixelRatio || 1\<close>: a ratio of 0 is falsy.\<close>

definition effective_dpr :: "real \<Rightarrow> real" where
  "effective_dpr devicePixelRatio = (if devicePixelRatio = 0 then 1 else devicePixelRatio)"

text \<open>\<open>Math.round(v * dpr) / dpr\<close>; \<open>Math.round\<close> rounds half up.\<close>

definition snap :: "real \<Rightarrow> real \<Rightarrow> real" where
  "snap dpr v = of_int \<lfloor>v * dpr + 1 / 2\<rfloor> / dpr"

text \<open>The value of \<open>mid\<close> for a non-empty sorted array \<open>centers\<close>.\<close>

definition mid :: "real list \<Rightarrow> real" where
  "mid centers =
     (if length centers mod 2 = 1 then centers ! ((length centers - 1) div 2)
      else (centers ! (length centers div 2 - 1) + centers ! (length centers div 2)) / 2)"

text \<open>
  The body of the \<open>forEach\<close>: whether this wrapper sets \<open>needsFix\<close>. The centers are
  \<open>snap(rect.top + rect.height / 2)\<close> of the child cards that exist (\<open>.filter(Boolean)\<close>),
  sorted ascending.
\<close>

definition wrapperNeedsFix :: "real \<Rightarrow> wrapper_view \<Rightarrow> bool" where
  "wrapperNeedsFix dpr w =
     (case card_rect w of
        None \<Rightarrow> False
      | Some parentRect \<Rightarrow>
          (case childCards w of
             None \<Rightarrow> False
           | Some childWrappers \<Rightarrow>
               if childWrappers = [] then False
               else
                 let parentCenterY = snap dpr (rect_top parentRect + rect_height parentRect / 2);
                     centers = sort (map (\<lambda>rect. snap dpr (rect_top rect + rect_height rect / 2))
                                 (List.map_filter (\<lambda>child. child) childWrappers))
                 in if centers = [] then False
                    else \<bar>mid centers - parentCenterY\<bar> > 1))"

fun needsFixLoop :: "real \<Rightarrow> wrapper_view list \<Rightarrow> bool \<Rightarrow> bool" where
  "needsFixLoop dpr [] needsFix = needsFix"
| "needsFixLoop dpr (w # ws) needsFix =
     needsFixLoop dpr ws (if wrapperNeedsFix dpr w then True else needsFix)"

definition validateSymmetry :: "real \<Rightarrow> wrapper_view list \<Rightarrow> bool" where
  "validateSymmetry devicePixelRatio wrappers =
     needsFixLoop (effective_dpr devicePixelRatio) wrappers False"

text \<open>
  The median as the specification words it: the midpoint element of the sorted list for an
  odd count, the average of the two central elements for an even count.
\<close>

definition median_spec :: "real list \<Rightarrow> real" where
  "median_spec sorted_centers =
     (let n = length sorted_centers in
      if odd n then sorted_centers ! (n div 2)
      else (sorted_centers ! (n div 2 - 1) + sorted_centers ! (n div 2)) / 2)"

section \<open>The node forest of \<open>MarkdownParser\<close>\<close>

text \<open>
  \<open>MindMapNode\<close>: the fields the modelled functions read or write. The optional
  presentation fields (\<open>titleHtml\<close>, \<open>descriptionHtml\<close>, \<open>color\<close>, \<open>strokeWeight\<close>,
  \<open>width\<close>, \<open>source\<close>) are read and written by none of them and are left out. \<open>level\<close>
  is a count of heading markers or a count derived from one by adding 1, hence a natural
  number; \<open>description\<close> and \<open>parentId\<close> are \<open>None\<close> for \<open>undefined\<close> and \<open>null\<close>.
  The field \<open>id\<close> is \<open>nodeId\<close> here.
\<close>

record node_fields =
  nodeId :: string
  title :: string
  description :: "string option"
  level :: nat
  collapsed :: bool
  parentId :: "string option"

datatype node = Node (props: node_fields) (children: "node list")

text \<open>\<open>findNodeById\<close> (the parser's and the renderer's are the same function).\<close>

fun findNodeById :: "node list \<Rightarrow> string \<Rightarrow> node option" where
  "findNodeById [] i = None"
| "findNodeById (Node f cs # nodes) i =
     (if nodeId f = i then Some (Node f cs)
      else case findNodeById cs i of
             Some found \<Rightarrow> Some found
           | None \<Rightarrow> findNodeById nodes i)"

subsection \<open>\<open>computeActiveDropIntent\<close>\<close>

definition isDescendant :: "node list \<Rightarrow> string \<Rightarrow> string \<Rightarrow> bool" where
  "isDescendant nodes ancestorId possibleDescendantId =
     (case findNodeById nodes ancestorId of
        None \<Rightarrow> False
      | Some ancestor \<Rightarrow> findNodeById (children ancestor) possibleDescendantId \<noteq> None)"

datatype drop_mode = Drop_sibling_before | Drop_sibling_after | Drop_child

record drop_intent =
  mode :: drop_mode
  targetId :: string
  rect :: DOMRect

text \<open>
  The hit test (\<open>elementFromPoint\<close> with the dragged wrapper hidden, then \<open>closest\<close>) is an
  input: \<open>None\<close> when \<open>targetWrapper\<close> or \<open>targetCard\<close> is null, otherwise the wrapper's
  \<open>data-node-id\<close> attribute (\<open>None\<close> for null) and the card's bounding rectangle.
\<close>

definition computeActiveDropIntent ::
  "node list \<Rightarrow> (string option \<times> DOMRect) option \<Rightarrow> real \<Rightarrow> string \<Rightarrow> drop_intent option" where
  "computeActiveDropIntent nodes hit clientY draggingNodeId =
     (case hit of
        None \<Rightarrow> None
      | Some (attr, r) \<Rightarrow>
          (case attr of
             None \<Rightarrow> None
           | Some tid \<Rightarrow>
               if tid = [] \<or> tid = draggingNodeId \<or> isDescendant nodes draggingNodeId tid
               then None
               else
                 let y = clientY - rect_top r;
                     zoneTop = rect_height r * 0.25;
                     zoneBottom = rect_height r * 0.75
                 in if y < zoneTop then
                      Some \<lparr>mode = Drop_sibling_before, targetId = tid,
                        rect = \<lparr>rect_left = rect_left r,
                          rect_top = rect_top r - rect_height r - 12,
                          rect_width = rect_width r, rect_height = rect_height r\<rparr>\<rparr>
                    else if y > zoneBottom then
                      Some \<lparr>mode = Drop_sibling_after, targetId = tid,
                        rect = \<lparr>rect_left = rect_left r,
                          rect_top = rect_bottom r + 12,
                          rect_width = rect_width r, rect_height = rect_height r\<rparr>\<rparr>
                    else
                      Some \<lparr>mode = Drop_child, targetId = tid,
                        rect = \<lparr>rect_left = rect_left r + rect_width r + 24,
                          rect_top = rect_top r,
                          rect_width = rect_width r, rect_height = rect_height r\<rparr>\<rparr>))"

subsection \<open>Lookups\<close>

text \<open>
  \<open>findNodeWithParent\<close> returns the node and the array that holds it. The loop runs over
  the elements of \<open>nodes\<close> not yet visited while \<open>nodes\<close> itself is what it returns as
  \<open>parent\<close>: the first argument of \<open>findWithParentLoop\<close> is the whole array, the second
  the elements still to visit. (The declared type lets \<open>parent\<close> be null; the function never
  returns null there.)
\<close>

fun findWithParentLoop :: "node list \<Rightarrow> node list \<Rightarrow> string \<Rightarrow> (node \<times> node list) option" where
  "findWithParentLoop nodes [] i = None"
| "findWithParentLoop nodes (Node f cs # rest) i =
     (if nodeId f = i then Some (Node f cs, nodes)
      else case findWithParentLoop cs cs i of
             Some found \<Rightarrow> Some found
           | None \<Rightarrow> findWithParentLoop nodes rest i)"

definition findNodeWithParent :: "node list \<Rightarrow> string \<Rightarrow> (node \<times> node list) option" where
  "findNodeWithParent nodes i = findWithParentLoop nodes nodes i"

text \<open>
  \<open>getParentChain\<close>: \<open>findParents\<close> with the array \<open>chain\<close> it mutates passed through;
  \<open>chain.unshift(node)\<close> puts \<open>node\<close> at the front.
\<close>

fun findParents :: "node list \<Rightarrow> string \<Rightarrow> node list \<Rightarrow> bool \<times> node list" where
  "findParents [] tid chain = (False, chain)"
| "findParents (Node f cs # currentNodes) tid chain =
     (if nodeId f = tid then (True, chain)
      else if findNodeById cs tid \<noteq> None then findParents cs tid (Node f cs # chain)
      else findParents currentNodes tid chain)"

definition getParentChain :: "node list \<Rightarrow> string \<Rightarrow> node list" where
  "getParentChain nodes i = snd (findParents nodes i [])"

fun findParentNode :: "node list \<Rightarrow> string \<Rightarrow> node option" where
  "findParentNode [] childId = None"
| "findParentNode (Node f cs # nodes) childId =
     (if list_ex (\<lambda>child. nodeId (props child) = childId) cs then Some (Node f cs)
      else case findParentNode cs childId of
             Some found \<Rightarrow> Some found
           | None \<Rightarrow> findParentNode nodes childId)"

subsection \<open>Mutators\<close>

text \<open>
  The mutators change the forest in place; the model returns the forest after the call next
  to the call's result. \<open>generateId()\<close> reads the clock and a random number: the string it
  returns is an input (\<open>newId\<close>) of each inserting function.
\<close>

definition newNode :: "string \<Rightarrow> string \<Rightarrow> nat \<Rightarrow> string option \<Rightarrow> node" where
  "newNode newId ttl lvl pid =
     Node \<lparr>nodeId = newId, title = ttl, description = Some [], level = lvl,
           collapsed = False, parentId = pid\<rparr> []"

text \<open>\<open>addSiblingNode\<close>: the inner function \<open>addSibling(currentNodes, parentId)\<close>;
  \<open>currentNodes.splice(i + 1, 0, newNode)\<close> inserts after the element at index \<open>i\<close>.\<close>

fun addSibling ::
  "string \<Rightarrow> string \<Rightarrow> string \<Rightarrow> node list \<Rightarrow> string option \<Rightarrow> node option \<times> node list" where
  "addSibling tid ttl newId [] pid = (None, [])"
| "addSibling tid ttl newId (Node f cs # rest) pid =
     (if nodeId f = tid then
        (Some (newNode newId ttl (level f) pid),
         Node f cs # newNode newId ttl (level f) pid # rest)
      else case addSibling tid ttl newId cs (Some (nodeId f)) of
             (Some created, cs') \<Rightarrow> (Some created, Node f cs' # rest)
           | (None, _) \<Rightarrow>
               (case addSibling tid ttl newId rest pid of
                  (created, rest') \<Rightarrow> (created, Node f cs # rest')))"

definition addSiblingNode ::
  "node list \<Rightarrow> string \<Rightarrow> string \<Rightarrow> string \<Rightarrow> node option \<times> node list" where
  "addSiblingNode nodes tid ttl newId = addSibling tid ttl newId nodes None"

text \<open>
  \<open>target.children.push(n)\<close> for the node object \<open>target\<close> that the depth-first search for
  \<open>tid\<close> returns: the forest with \<open>n\<close> appended to the children of the first node, in
  depth-first order, whose id is \<open>tid\<close>.
\<close>

fun pushChild :: "string \<Rightarrow> node \<Rightarrow> node list \<Rightarrow> node list" where
  "pushChild tid n [] = []"
| "pushChild tid n (Node f cs # rest) =
     (if nodeId f = tid then Node f (cs @ [n]) # rest
      else if findNodeById cs tid \<noteq> None then Node f (pushChild tid n cs) # rest
      else Node f cs # pushChild tid n rest)"

definition addChildNode ::
  "node list \<Rightarrow> string \<Rightarrow> string \<Rightarrow> string \<Rightarrow> node option \<times> node list" where
  "addChildNode nodes tid ttl newId =
     (case findNodeById nodes tid of
        None \<Rightarrow> (None, nodes)
      | Some target \<Rightarrow>
          (Some (newNode newId ttl (level (props target) + 1) (Some (nodeId (props target)))),
           pushChild tid
             (newNode newId ttl (level (props target) + 1) (Some (nodeId (props target))))
             nodes))"

definition addRootNode :: "node list \<Rightarrow> string \<Rightarrow> string \<Rightarrow> node \<times> node list" where
  "addRootNode nodes ttl newId =
     (newNode newId ttl 1 None, nodes @ [newNode newId ttl 1 None])"

text \<open>\<open>deleteNode\<close>: the inner function \<open>deleteFromArray\<close>.\<close>

fun deleteFromArray :: "string \<Rightarrow> node list \<Rightarrow> bool \<times> node list" where
  "deleteFromArray i [] = (False, [])"
| "deleteFromArray i (Node f cs # rest) =
     (if nodeId f = i then (True, rest)
      else case deleteFromArray i cs of
             (True, cs') \<Rightarrow> (True, Node f cs' # rest)
           | (False, _) \<Rightarrow>
               (case deleteFromArray i rest of
                  (deleted, rest') \<Rightarrow> (deleted, Node f cs # rest')))"

definition deleteNode :: "node list \<Rightarrow> string \<Rightarrow> bool \<times> node list" where
  "deleteNode nodes i = deleteFromArray i nodes"

fun updateNodeLevels :: "node \<Rightarrow> nat \<Rightarrow> node" where
  "updateNodeLevels (Node f cs) lvl =
     Node (f\<lparr>level := lvl\<rparr>) (map (\<lambda>child. updateNodeLevels child (lvl + 1)) cs)"

text \<open>
  \<open>target.parent.splice(insertIndex, 0, n)\<close> for the array \<open>target.parent\<close> that holds the
  first node, in depth-first order, whose id is \<open>tid\<close>: \<open>targetIndex\<close> is the index of that
  node in the array (\<open>findIndex\<close> returns the first element with the id, and the search
  would have stopped at an earlier one), and \<open>n\<close> goes in before it, or after it when
  \<open>after\<close> holds.
\<close>

fun spliceAtTarget :: "string \<Rightarrow> bool \<Rightarrow> node \<Rightarrow> node list \<Rightarrow> node list" where
  "spliceAtTarget tid after n [] = []"
| "spliceAtTarget tid after n (Node f cs # rest) =
     (if nodeId f = tid then
        (if after then Node f cs # n # rest else n # Node f cs # rest)
      else if findNodeById cs tid \<noteq> None then Node f (spliceAtTarget tid after n cs) # rest
      else Node f cs # spliceAtTarget tid after n rest)"

datatype move_mode = Sibling | Child

datatype move_position = Before | After | Append

text \<open>
  How a call of \<open>moveNode\<close> ends: it returns a boolean, or \<open>updateNodeLevels\<close> recurses
  without end over a cyclic structure and the engine throws its \<open>RangeError\<close> (call stack
  exhausted).
\<close>

datatype outcome = Returned bool | RangeError

definition setParentId :: "node \<Rightarrow> string option \<Rightarrow> node" where
  "setParentId n pid = Node ((props n)\<lparr>parentId := pid\<rparr>) (children n)"

text \<open>The ids of a forest in depth-first order.\<close>

fun ids :: "node list \<Rightarrow> string list" where
  "ids [] = []"
| "ids (Node f cs # rest) = nodeId f # ids cs @ ids rest"

text \<open>
  Whether the object \<open>target.node\<close> lies inside the subtree of the object \<open>source.node\<close>,
  both as returned by \<open>findNodeWithParent\<close>, that is the first nodes with the ids \<open>tid\<close> and
  \<open>nid\<close> in depth-first order (\<open>nid \<noteq> tid\<close>): no node with id \<open>tid\<close> comes before
  \<open>source.node\<close> in that order, and a descendant of \<open>source.node\<close> has the id \<open>tid\<close>.
  \<open>moveNode\<close> makes no such test; the model needs it to say where the arrays it mutates
  are.
\<close>

definition targetInsideSource :: "node list \<Rightarrow> string \<Rightarrow> node \<Rightarrow> string \<Rightarrow> bool" where
  "targetInsideSource nodes nid source tid =
     (tid \<notin> set (takeWhile (\<lambda>i. i \<noteq> nid) (ids nodes)) \<and>
      findNodeById (children source) tid \<noteq> None)"

text \<open>
  \<open>moveNode\<close>. The model holds the forest as a value and finds the objects the source
  holds by reference again by their id:

  \<^item> \<open>source.parent.splice(sourceIndex, 1)\<close> removes from the array that holds it the first
    node with id \<open>nid\<close> in depth-first order, which is what \<open>deleteFromArray\<close> does to the
    forest; the result is \<open>nodes1\<close>.
  \<^item> When the target is not inside the removed subtree, the object \<open>target.node\<close> and the
    array \<open>target.parent\<close> are still in \<open>nodes1\<close>, and \<open>target.node\<close> is still the first
    node with id \<open>tid\<close> there. \<open>targetIndex < 0\<close> is tested on that array.
  \<^item> When the target is inside the removed subtree, \<open>target.node\<close> and \<open>target.parent\<close>
    have left the forest with it. Pushing or splicing \<open>source.node\<close> into them makes
    \<open>source.node\<close> its own descendant; the forest stays \<open>nodes1\<close>. \<open>findParentNode\<close> then
    searches \<open>nodes1\<close>. Every call of \<open>updateNodeLevels(source.node, _)\<close> on that cyclic
    structure recurses until the stack is exhausted.
  \<^item> In sibling mode \<open>source.node\<close> is already in the array when \<open>findParentNode\<close> runs
    (\<open>nodes2\<close>); the assignment to \<open>parentId\<close> and \<open>updateNodeLevels\<close> then change that
    object in place.
\<close>

definition moveNode ::
  "node list \<Rightarrow> string \<Rightarrow> string \<Rightarrow> move_mode \<Rightarrow> move_position \<Rightarrow> outcome \<times> node list" where
  "moveNode nodes nid tid mmode position =
     (if nid = tid then (Returned False, nodes)
      else case findNodeWithParent nodes nid of
        None \<Rightarrow> (Returned False, nodes)
      | Some (source, sourceParent) \<Rightarrow>
         (case findNodeWithParent nodes tid of
            None \<Rightarrow> (Returned False, nodes)
          | Some (target, targetParent) \<Rightarrow>
             if \<not> list_ex (\<lambda>n. nodeId (props n) = nid) sourceParent
             then (Returned False, nodes)
             else
               let nodes1 = snd (deleteFromArray nid nodes) in
               if targetInsideSource nodes nid source tid then
                 (if mmode = Child then (RangeError, nodes1)
                  else
                    let targetParentNode = findParentNode nodes1 tid;
                        newParentId = map_option (\<lambda>p. nodeId (props p)) targetParentNode;
                        newLevel = (case targetParentNode of
                                      None \<Rightarrow> 1 | Some p \<Rightarrow> level (props p) + 1)
                    in if parentId (props source) \<noteq> newParentId
                          \<or> level (props source) \<noteq> newLevel
                       then (RangeError, nodes1)
                       else (Returned True, nodes1))
               else if mmode = Child then
                 (Returned True,
                  pushChild tid
                    (updateNodeLevels (setParentId source (Some (nodeId (props target))))
                       (level (props target) + 1))
                    nodes1)
               else
                 (case findNodeWithParent nodes1 tid of
                    None \<Rightarrow> (Returned False, nodes1)
                  | Some (target1, targetParent1) \<Rightarrow>
                     if \<not> list_ex (\<lambda>n. nodeId (props n) = tid) targetParent1
                     then (Returned False, nodes1)
                     else
                       let nodes2 = spliceAtTarget tid (position = After) source nodes1;
                           targetParentNode = findParentNode nodes2 tid;
                           newParentId = map_option (\<lambda>p. nodeId (props p)) targetParentNode;
                           newLevel = (case targetParentNode of
                                         None \<Rightarrow> 1 | Some p \<Rightarrow> level (props p) + 1)
                       in if parentId (props source) \<noteq> newParentId
                             \<or> level (props source) \<noteq> newLevel
                          then (Returned True,
                                spliceAtTarget tid (position = After)
                                  (updateNodeLevels (setParentId source newParentId) newLevel)
                                  nodes1)
                          else (Returned True, nodes2))))"

subsection \<open>The invariants of the data model\<close>

text \<open>Invariant 1: \<open>levels_ok l nodes\<close> when the nodes of the array \<open>nodes\<close> have level
  \<open>l\<close> and every child has its parent's level plus 1.\<close>

fun levels_ok :: "nat \<Rightarrow> node list \<Rightarrow> bool" where
  "levels_ok l [] = True"
| "levels_ok l (Node f cs # rest) = (level f = l \<and> levels_ok (l + 1) cs \<and> levels_ok l rest)"

text \<open>Invariant 2: \<open>parents_ok p nodes\<close> when the nodes of the array \<open>nodes\<close> have
  \<open>parentId = p\<close> and every child has the id of the node that holds it.\<close>

fun parents_ok :: "string option \<Rightarrow> node list \<Rightarrow> bool" where
  "parents_ok p [] = True"
| "parents_ok p (Node f cs # rest) =
     (parentId f = p \<and> parents_ok (Some (nodeId f)) cs \<and> parents_ok p rest)"

text \<open>Invariant 3: no node's id occurs among its own descendants.\<close>

fun acyclic_ids :: "node list \<Rightarrow> bool" where
  "acyclic_ids [] = True"
| "acyclic_ids (Node f cs # rest) =
     (nodeId f \<notin> set (ids cs) \<and> acyclic_ids cs \<and> acyclic_ids rest)"

definition valid_forest :: "node list \<Rightarrow> bool" where
  "valid_forest nodes =
     (levels_ok 1 nodes \<and> parents_ok None nodes \<and> distinct (ids nodes) \<and> acyclic_ids nodes)"

text \<open>A small forest used in examples: roots \<open>A\<close> and \<open>D\<close>; \<open>A\<close> has the child \<open>B\<close>,
  \<open>B\<close> has the child \<open>C\<close>.\<close>

definition mk :: "string \<Rightarrow> nat \<Rightarrow> string option \<Rightarrow> node list \<Rightarrow> node" where
  "mk i l p cs =
     Node \<lparr>nodeId = i, title = i, description = None, level = l, collapsed = False,
           parentId = p\<rparr> cs"

definition nodeC :: node where "nodeC = mk ''C'' 3 (Some ''B'') []"
definition nodeB :: node where "nodeB = mk ''B'' 2 (Some ''A'') [nodeC]"
definition nodeA :: node where "nodeA = mk ''A'' 1 None [nodeB]"
definition nodeD :: node where "nodeD = mk ''D'' 1 None []"

definition example_forest :: "node list" where
  "example_forest = [nodeA, nodeD]"

subsection \<open>Ancestors, as the specification words them\<close>

text \<open>
  The ancestors of the first node with id \<open>i\<close> in depth-first order, from the shallowest
  (a root) down to the immediate parent; \<open>None\<close> when no node has the id.
\<close>

fun ancestors_spec :: "node list \<Rightarrow> string \<Rightarrow> node list option" where
  "ancestors_spec [] i = None"
| "ancestors_spec (Node f cs # rest) i =
     (if nodeId f = i then Some []
      else case ancestors_spec cs i of
             Some path \<Rightarrow> Some (Node f cs # path)
           | None \<Rightarrow> ancestors_spec rest i)"

text \<open>\<open>is_ancestor_path nodes path i\<close>: the first node of \<open>path\<close> is in \<open>nodes\<close>, each next
  one is a child of the one before, and a node with id \<open>i\<close> is a child of the last (or is in
  \<open>nodes\<close> when the path is empty).\<close>

fun is_ancestor_path :: "node list \<Rightarrow> node list \<Rightarrow> string \<Rightarrow> bool" where
  "is_ancestor_path nodes [] i = list_ex (\<lambda>n. nodeId (props n) = i) nodes"
| "is_ancestor_path nodes (a # path) i =
     (a \<in> set nodes \<and> is_ancestor_path (children a) path i)"

text \<open>A root \<open>R\<close> with the children \<open>X\<close>, \<open>Y\<close>, \<open>Z\<close>.\<close>

definition nodeX :: node where "nodeX = mk ''X'' 2 (Some ''R'') []"
definition nodeY :: node where "nodeY = mk ''Y'' 2 (Some ''R'') []"
definition nodeZ :: node where "nodeZ = mk ''Z'' 2 (Some ''R'') []"

definition siblings_forest :: "node list" where
  "siblings_forest = [mk ''R'' 1 None [nodeX, nodeY, nodeZ]]"

subsection \<open>Sequences of structural operations\<close>

text \<open>
  An insert (sibling, child or root, each with the id that \<open>generateId()\<close> returns for
  it), a delete or a move; \<open>apply_op\<close> is the forest the call leaves behind, whatever it
  returns (for a move that ends in \<open>RangeError\<close>, the forest at that moment).
\<close>

datatype tree_op =
    InsertSibling string string string
  | InsertChild string string string
  | InsertRoot string string
  | Delete string
  | Move string string move_mode move_position

fun apply_op :: "node list \<Rightarrow> tree_op \<Rightarrow> node list" where
  "apply_op nodes (InsertSibling afterId ttl newId) = snd (addSiblingNode nodes afterId ttl newId)"
| "apply_op nodes (InsertChild pid ttl newId) = snd (addChildNode nodes pid ttl newId)"
| "apply_op nodes (InsertRoot ttl newId) = snd (addRootNode nodes ttl newId)"
| "apply_op nodes (Delete i) = snd (deleteNode nodes i)"
| "apply_op nodes (Move i tid mmode position) = snd (moveNode nodes i tid mmode position)"

text \<open>\<open>generateId\<close> is documented to return a unique id: the id an insert receives is
  not in the forest.\<close>

fun new_id_fresh :: "node list \<Rightarrow> tree_op \<Rightarrow> bool" where
  "new_id_fresh nodes (InsertSibling afterId ttl newId) = (newId \<notin> set (ids nodes))"
| "new_id_fresh nodes (InsertChild pid ttl newId) = (newId \<notin> set (ids nodes))"
| "new_id_fresh nodes (InsertRoot ttl newId) = (newId \<notin> set (ids nodes))"
| "new_id_fresh nodes (Delete i) = True"
| "new_id_fresh nodes (Move i tid mmode position) = True"

fun fresh_ids :: "node list \<Rightarrow> tree_op list \<Rightarrow> bool" where
  "fresh_ids nodes [] = True"
| "fresh_ids nodes (operation # ops) =
     (new_id_fresh nodes operation \<and> fresh_ids (apply_op nodes operation) ops)"


subsection \<open>Auxiliary notions for the proofs\<close>

text \<open>\<open>container_ctx p l nodes t\<close>: for the array that holds the first node with id \<open>t\<close> in
  depth-first order, the id of the node that owns the array and the depth of the array,
  starting from \<open>p\<close> and \<open>l\<close> for \<open>nodes\<close> itself. \<open>top_ids\<close> are the ids of the elements of an
  array, \<open>sub_ids\<close> the ids below them.\<close>

fun container_ctx :: "string option \<Rightarrow> nat \<Rightarrow> node list \<Rightarrow> string \<Rightarrow> (string option \<times> nat) option" where
  "container_ctx p l [] t = None"
| "container_ctx p l (Node f cs # rest) t =
     (if nodeId f = t then Some (p, l)
      else case container_ctx (Some (nodeId f)) (l + 1) cs t of
             Some c \<Rightarrow> Some c
           | None \<Rightarrow> container_ctx p l rest t)"

fun sub_ids :: "node list \<Rightarrow> string list" where
  "sub_ids [] = []"
| "sub_ids (Node f cs # rest) = ids cs @ sub_ids rest"

definition top_ids :: "node list \<Rightarrow> string list" where
  "top_ids ns = map (\<lambda>n. nodeId (props n)) ns"

section \<open>\<open>parse\<close> and \<open>serialize\<close>\<close>

subsection \<open>Strings\<close>

text \<open>
  A string is a list of characters; a character stands for a UTF-16 code unit below 256, so
  the model covers the texts made of such code units. In that range the white space of
  \<open>\s\<close> and of \<open>trim()\<close> is tab, line feed, vertical tab, form feed, carriage return,
  space and no-break space, and the line terminators, which \<open>.\<close> does not match, are line
  feed and carriage return.
\<close>

definition isSpace :: "char \<Rightarrow> bool" where
  "isSpace c = (c \<in> {CHR 0x09, CHR 0x0A, CHR 0x0B, CHR 0x0C, CHR 0x0D, CHR 0x20, CHR 0xA0})"

definition isLineTerminator :: "char \<Rightarrow> bool" where
  "isLineTerminator c = (c = CHR 0x0A \<or> c = CHR 0x0D)"

definition trim :: "string \<Rightarrow> string" where
  "trim s = rev (dropWhile isSpace (rev (dropWhile isSpace s)))"

text \<open>\<open>markdown.split('\n')\<close> and \<open>lines.join('\n')\<close>. (The second case of the
  \<open>case\<close> in \<open>split_nl\<close> is the only one that occurs: the result is never empty.)\<close>

fun split_nl :: "string \<Rightarrow> string list" where
  "split_nl [] = [[]]"
| "split_nl (c # cs) =
     (if c = CHR 0x0A then [] # split_nl cs
      else case split_nl cs of
             [] \<Rightarrow> [[c]]
           | l # ls \<Rightarrow> (c # l) # ls)"

fun join_nl :: "string list \<Rightarrow> string" where
  "join_nl [] = []"
| "join_nl [l] = l"
| "join_nl (l # l' # ls) = l @ CHR 0x0A # join_nl (l' # ls)"

text \<open>
  \<open>line.match(/^(#{1,6})\s+(.+)$/)\<close>, returning the length of group 1 and group 2.
  White space must follow group 1, so group 1 is the whole run of \<open>k\<close> leading \<open>#\<close> and
  \<open>1 \<le> k \<le> 6\<close>. With \<open>w\<close> the run of white space after it and \<open>b\<close> the rest of the line:
  \<open>\s+\<close> is greedy and takes all of \<open>w\<close> when \<open>b\<close> is not empty, and group 2 is then \<open>b\<close>,
  which must hold no line terminator up to the end of the input (giving back white space
  to group 2 would not remove one); when \<open>b\<close> is empty, \<open>\s+\<close> gives back the last character
  of \<open>w\<close>, which must not be a line terminator, and needs one character before it.
\<close>

definition headingMatch :: "string \<Rightarrow> (nat \<times> string) option" where
  "headingMatch line =
     (let k = length (takeWhile (\<lambda>c. c = CHR ''#'') line);
          r = drop k line;
          w = takeWhile isSpace r;
          b = dropWhile isSpace r
      in if 1 \<le> k \<and> k \<le> 6 \<and> w \<noteq> [] then
           (if b \<noteq> [] then
              (if list_all (\<lambda>c. \<not> isLineTerminator c) b then Some (k, b) else None)
            else if 2 \<le> length w \<and> \<not> isLineTerminator (last w) then Some (k, [last w])
            else None)
         else None)"

subsection \<open>The forest under construction\<close>

text \<open>
  \<open>parse\<close> keeps references to node objects in \<open>nodeStack\<close> and in \<open>currentNode\<close> and
  mutates them after they have been pushed into \<open>nodes\<close> or into a parent's \<open>children\<close>.
  Every node is pushed as the last element of its array, and the entry pushed on the stack
  is that node; an entry stays on the stack only while no later node has been added at or
  above it. So the \<open>k\<close>-th entry of the stack (from the bottom) is the node reached from
  \<open>nodes\<close> by taking the last element \<open>k\<close> times (the last root, its last child, and so
  on), and \<open>currentNode\<close> is the top entry. The model keeps the forest as a value and
  addresses these objects by that depth; the stack holds, for each entry, the node's id and
  the \<open>level\<close> stored beside it. (\<open>spine_match\<close> below states this correspondence, and it
  is proved to hold throughout.)

  \<open>updateAtDepth d g nodes\<close> applies \<open>g\<close> to the node at depth \<open>d \<ge> 1\<close> of that path.
\<close>

primrec updateAtDepth :: "nat \<Rightarrow> (node \<Rightarrow> node) \<Rightarrow> node list \<Rightarrow> node list" where
  "updateAtDepth 0 g ns = ns"
| "updateAtDepth (Suc d) g ns =
     (if ns = [] then []
      else butlast ns @
        [if d = 0 then g (last ns)
         else Node (props (last ns)) (updateAtDepth d g (children (last ns)))])"

text \<open>\<open>nodes.push(n)\<close> for an empty stack (depth 0), \<open>parent.children.push(n)\<close> for the
  parent at depth \<open>d\<close>.\<close>

definition pushAtDepth :: "nat \<Rightarrow> node \<Rightarrow> node list \<Rightarrow> node list" where
  "pushAtDepth d n ns =
     (if d = 0 then ns @ [n]
      else updateAtDepth d (\<lambda>p. Node (props p) (children p @ [n])) ns)"

text \<open>\<open>currentNode.description = d\<close>.\<close>

definition setDescription :: "string \<Rightarrow> node \<Rightarrow> node" where
  "setDescription d n = Node ((props n)\<lparr>description := Some d\<rparr>) (children n)"

text \<open>The \<open>while\<close> loop that pops every entry whose level is at least \<open>lvl\<close> off the top;
  the stack is a list with its top at the end, as the array is.\<close>

definition popStack :: "nat \<Rightarrow> (string \<times> nat) list \<Rightarrow> (string \<times> nat) list" where
  "popStack lvl nodeStack = rev (dropWhile (\<lambda>e. lvl \<le> snd e) (rev nodeStack))"

subsection \<open>\<open>parse\<close>\<close>

text \<open>
  The variables of the loop: \<open>nodes\<close>, \<open>nodeStack\<close>, whether \<open>currentNode\<close> is set,
  \<open>descriptionLines\<close>, and the number of calls of \<open>generateId()\<close> so far (\<open>generateId\<close> is
  an input: the string its \<open>k\<close>-th call returns).
\<close>

record parse_state =
  st_nodes :: "node list"
  st_stack :: "(string \<times> nat) list"
  st_current :: bool
  st_desc :: "string list"
  st_count :: nat

text \<open>\<open>if (currentNode && descriptionLines.length > 0) currentNode.description = ...\<close>: the
  forest afterwards.\<close>

definition saveDescription :: "parse_state \<Rightarrow> node list" where
  "saveDescription st =
     (if st_current st \<and> st_desc st \<noteq> []
      then updateAtDepth (length (st_stack st)) (setDescription (trim (join_nl (st_desc st))))
             (st_nodes st)
      else st_nodes st)"

text \<open>One iteration of the \<open>for\<close> loop.\<close>

definition parseLine :: "(nat \<Rightarrow> string) \<Rightarrow> parse_state \<Rightarrow> string \<Rightarrow> parse_state" where
  "parseLine generateId st line =
     (case headingMatch line of
        Some (lvl, group2) \<Rightarrow>
          let nodes1 = saveDescription st;
              desc1 = (if st_current st \<and> st_desc st \<noteq> [] then [] else st_desc st);
              newId = generateId (st_count st);
              stack1 = popStack lvl (st_stack st);
              n = Node \<lparr>nodeId = newId, title = trim group2, description = None, level = lvl,
                        collapsed = False,
                        parentId = (if stack1 = [] then None else Some (fst (last stack1)))\<rparr> []
          in \<lparr>st_nodes = pushAtDepth (length stack1) n nodes1,
              st_stack = stack1 @ [(newId, lvl)],
              st_current = True,
              st_desc = desc1,
              st_count = st_count st + 1\<rparr>
      | None \<Rightarrow>
          if st_current st \<and> trim line \<noteq> [] then st\<lparr>st_desc := st_desc st @ [line]\<rparr>
          else st)"

definition parse :: "(nat \<Rightarrow> string) \<Rightarrow> string \<Rightarrow> node list" where
  "parse generateId markdown =
     saveDescription
       (foldl (parseLine generateId)
          \<lparr>st_nodes = [], st_stack = [], st_current = False, st_desc = [], st_count = 0\<rparr>
          (split_nl markdown))"

subsection \<open>\<open>serialize\<close>\<close>

text \<open>The lines that \<open>serializeNode\<close> pushes for the nodes of an array, in order;
  \<open>if (node.description)\<close> holds for a description that is present and not empty.\<close>

fun serializeNodes :: "node list \<Rightarrow> string list" where
  "serializeNodes [] = []"
| "serializeNodes (Node f cs # rest) =
     (replicate (level f) CHR ''#'' @ '' '' @ title f)
     # (case description f of
          None \<Rightarrow> []
        | Some d \<Rightarrow> if d = [] then [] else [[], d])
     @ [[]] @ serializeNodes cs @ serializeNodes rest"

definition serialize :: "node list \<Rightarrow> string" where
  "serialize ns = trim (join_nl (serializeNodes ns))"

subsection \<open>Properties of parsed forests and canonical documents\<close>

text \<open>\<open>levels_inc l nodes\<close>: every node of the array has a level above \<open>l\<close>, and every
  child a level above its parent's.\<close>

fun levels_inc :: "nat \<Rightarrow> node list \<Rightarrow> bool" where
  "levels_inc l [] = True"
| "levels_inc l (Node f cs # rest) =
     (l < level f \<and> levels_inc (level f) cs \<and> levels_inc l rest)"

text \<open>\<open>spine_match stack nodes\<close>: the entries of the stack, from the bottom, carry the id
  and level of the last root, of its last child, and so on. \<open>parse_inv\<close> is the loop
  invariant; \<open>keeps_structure g\<close> says that \<open>g\<close> changes neither id, level, \<open>parentId\<close> nor
  children.\<close>

fun spine_match :: "(string \<times> nat) list \<Rightarrow> node list \<Rightarrow> bool" where
  "spine_match [] ns = True"
| "spine_match ((i, l) # bs) ns =
     (ns \<noteq> [] \<and> nodeId (props (last ns)) = i \<and> level (props (last ns)) = l \<and>
      spine_match bs (children (last ns)))"

definition parse_inv :: "parse_state \<Rightarrow> bool" where
  "parse_inv st =
     (parents_ok None (st_nodes st) \<and> levels_inc 0 (st_nodes st) \<and>
      spine_match (st_stack st) (st_nodes st))"

definition keeps_structure :: "(node \<Rightarrow> node) \<Rightarrow> bool" where
  "keeps_structure g =
     (\<forall>n. nodeId (props (g n)) = nodeId (props n) \<and> level (props (g n)) = level (props n)
        \<and> parentId (props (g n)) = parentId (props n) \<and> children (g n) = children n)"

text \<open>
  A heading-only document in the serializer's form, given by its headings (marker count
  and title): each heading is its markers, one space and the title; a title is not empty,
  has no white space at either end and no line terminator; consecutive headings are
  separated by exactly one empty line. \<open>doc_lines\<close> are the lines of the document,
  \<open>heading_lines\<close> the lines \<open>serialize\<close> produces for them.
\<close>

definition hline :: "nat \<times> string \<Rightarrow> string" where
  "hline h = replicate (fst h) CHR ''#'' @ '' '' @ snd h"

definition heading_ok :: "nat \<times> string \<Rightarrow> bool" where
  "heading_ok h =
     (1 \<le> fst h \<and> fst h \<le> 6 \<and> snd h \<noteq> [] \<and> \<not> isSpace (hd (snd h)) \<and>
      \<not> isSpace (last (snd h)) \<and> list_all (\<lambda>c. \<not> isLineTerminator c) (snd h))"

fun doc_lines :: "(nat \<times> string) list \<Rightarrow> string list" where
  "doc_lines [] = [[]]"
| "doc_lines [h] = [hline h]"
| "doc_lines (h # h' # hs) = hline h # [] # doc_lines (h' # hs)"

definition heading_lines :: "(nat \<times> string) list \<Rightarrow> string list" where
  "heading_lines hs = concat (map (\<lambda>h. [hline h, []]) hs)"

text \<open>
  The nodes of a forest in depth-first order, each as its id, its level and its
  \<open>parentId\<close>; the headings of a text in document order, each with the id its node
  receives (the \<open>k\<close>-th heading gets the \<open>k\<close>-th generated id) and its marker count;
  \<open>nearest_smaller prev l\<close>, the id of the last entry of \<open>prev\<close> whose level is below
  \<open>l\<close>; and \<open>attach_ok prev rest\<close>: every entry of \<open>rest\<close> has as \<open>parentId\<close> the id of the
  nearest entry before it with a strictly smaller level, and null when there is none.
\<close>

fun flat :: "node list \<Rightarrow> (string \<times> nat \<times> string option) list" where
  "flat [] = []"
| "flat (Node f cs # rest) = (nodeId f, level f, parentId f) # flat cs @ flat rest"

definition nearest_smaller :: "(string \<times> nat \<times> string option) list \<Rightarrow> nat \<Rightarrow> string option" where
  "nearest_smaller prev l = map_option fst (List.find (\<lambda>e. fst (snd e) < l) (rev prev))"

fun attach_ok ::
  "(string \<times> nat \<times> string option) list \<Rightarrow> (string \<times> nat \<times> string option) list \<Rightarrow> bool" where
  "attach_ok prev [] = True"
| "attach_ok prev (e # rest) =
     (snd (snd e) = nearest_smaller prev (fst (snd e)) \<and> attach_ok (prev @ [e]) rest)"

fun headings_from :: "(nat \<Rightarrow> string) \<Rightarrow> nat \<Rightarrow> string list \<Rightarrow> (string \<times> nat) list" where
  "headings_from gen k [] = []"
| "headings_from gen k (line # ls) =
     (case headingMatch line of
        Some (lvl, group2) \<Rightarrow> (gen k, lvl) # headings_from gen (k + 1) ls
      | None \<Rightarrow> headings_from gen k ls)"

text \<open>For the proofs: the stack that the entries of a depth-first listing leave behind,
  its top, and the second part of the loop invariant.\<close>

fun stack_of :: "(string \<times> nat \<times> string option) list \<Rightarrow> (string \<times> nat) list \<Rightarrow> (string \<times> nat) list" where
  "stack_of [] st = st"
| "stack_of (e # es) st = stack_of es (popStack (fst (snd e)) st @ [(fst e, fst (snd e))])"

definition stack_top :: "(string \<times> nat) list \<Rightarrow> string option" where
  "stack_top st = (if st = [] then None else Some (fst (last st)))"

definition parse_inv2 :: "parse_state \<Rightarrow> bool" where
  "parse_inv2 st =
     (spine_match (st_stack st) (st_nodes st) \<and>
      st_stack st = stack_of (flat (st_nodes st)) [] \<and>
      attach_ok [] (flat (st_nodes st)) \<and>
      st_count st = length (flat (st_nodes st)))"

section \<open>Theorems\<close>

lemmas example_defs = example_forest_def nodeA_def nodeB_def nodeC_def nodeD_def mk_def

subsection \<open>The normalisation loop\<close>

lemma settle_bound: "snd (settle env p k) \<le> k + 1 + (3 - p)"
proof (induction env p k rule: settle.induct)
  case (1 env p k)
  show ?case
  proof (cases "\<not> dragActive (env k) \<and> changed (env k) \<and> p < 3")
    case True
    then have "settle env p k = settle env (p + 1) (k + 1)"
      by (simp add: settle.simps [of env p k])
    moreover have "snd (settle env (p + 1) (k + 1)) \<le> k + 1 + 1 + (3 - (p + 1))"
      using 1 True by simp
    moreover have "k + 1 + 1 + (3 - (p + 1)) = k + 1 + (3 - p)"
      using True by arith
    ultimately show ?thesis by simp
  next
    case False
    then show ?thesis by (auto simp: settle.simps [of env p k])
  qed
qed

lemma settle_lower: "k < snd (settle env p k)"
proof (induction env p k rule: settle.induct)
  case (1 env p k)
  show ?case
  proof (cases "\<not> dragActive (env k) \<and> changed (env k) \<and> p < 3")
    case True
    then have "settle env p k = settle env (p + 1) (k + 1)"
      by (simp add: settle.simps [of env p k])
    moreover have "k + 1 < snd (settle env (p + 1) (k + 1))"
      using 1 True by simp
    ultimately show ?thesis by simp
  next
    case False
    then show ?thesis by (auto simp: settle.simps [of env p k])
  qed
qed

lemma settle_stops:
  "\<forall>i < j. \<not> dragActive (env (k + i)) \<and> changed (env (k + i)) \<Longrightarrow> p + j \<le> 3 \<Longrightarrow>
   \<not> dragActive (env (k + j)) \<Longrightarrow> \<not> changed (env (k + j)) \<Longrightarrow>
   settle env p k = (0, k + j + 1)"
proof (induction j arbitrary: p k)
  case 0
  then show ?case by (simp add: settle.simps [of env p k])
next
  case (Suc j)
  from Suc.prems(1) have now: "\<not> dragActive (env k) \<and> changed (env k)"
    by (metis add.right_neutral zero_less_Suc)
  have later: "\<forall>i < j. \<not> dragActive (env (k + 1 + i)) \<and> changed (env (k + 1 + i))"
  proof (intro allI impI)
    fix i assume "i < j"
    then have "Suc i < Suc j" by simp
    with Suc.prems(1) have "\<not> dragActive (env (k + Suc i)) \<and> changed (env (k + Suc i))"
      by blast
    then show "\<not> dragActive (env (k + 1 + i)) \<and> changed (env (k + 1 + i))" by simp
  qed
  have "settle env (p + 1) (k + 1) = (0, k + 1 + j + 1)"
    using Suc.IH [of "k + 1" "p + 1"] later Suc.prems by simp
  moreover have "settle env p k = settle env (p + 1) (k + 1)"
    using now Suc.prems(2) by (simp add: settle.simps [of env p k])
  ultimately show ?case by simp
qed

text \<open>
  Claim C9. Started with \<open>normalizePasses = 0\<close> at frame \<open>k\<close>, the loop is total (the
  function is defined with a termination proof), runs its first pass in frame \<open>k\<close> and
  reruns it in at most 3 further frames, so it ends after at most 4 frames; and when the
  pass of frame \<open>k + j\<close> is the first to report no change (every earlier pass, with no
  drag active, reported a change), the loop ends with that frame, having rerun the pass
  \<open>j\<close> times, and resets the counter.
\<close>

theorem normalize_loop_bounded:
  "k < snd (settle env 0 k) \<and> snd (settle env 0 k) - (k + 1) \<le> 3 \<and>
   ((\<forall>i < j. \<not> dragActive (env (k + i)) \<and> changed (env (k + i))) \<and> j \<le> 3 \<and>
    \<not> dragActive (env (k + j)) \<and> \<not> changed (env (k + j))
    \<longrightarrow> settle env 0 k = (0, k + j + 1))"
  using settle_bound [where env = env and p = 0 and k = k]
    settle_lower [where env = env and p = 0 and k = k]
    settle_stops [where j = j and env = env and k = k and p = 0]
  by auto

theorem normalize_loop_bounded_witness:
  "settle (\<lambda>i. \<lparr>dragActive = False, changed = (i < 2)\<rparr>) 0 0 = (0, 3) \<and>
   snd (settle (\<lambda>i. \<lparr>dragActive = False, changed = True\<rparr>) 0 0) - 1 \<le> 3"
proof -
  let ?env = "\<lambda>i::nat. \<lparr>dragActive = False, changed = (i < 2)\<rparr>"
  have "\<forall>i < 2. \<not> dragActive (?env (0 + i)) \<and> changed (?env (0 + i))" by simp
  moreover have "(2::nat) \<le> 3" by simp
  moreover have "\<not> dragActive (?env (0 + 2)) \<and> \<not> changed (?env (0 + 2))" by simp
  ultimately have "settle ?env 0 0 = (0, 0 + 2 + 1)"
    using normalize_loop_bounded [where k = 0 and env = ?env and j = 2] by blast
  moreover have "snd (settle (\<lambda>i. \<lparr>dragActive = False, changed = True\<rparr>) 0 0) - 1 \<le> 3"
    using normalize_loop_bounded [where k = 0 and env = "\<lambda>i. \<lparr>dragActive = False, changed = True\<rparr>" and j = 0] by simp
  ultimately show ?thesis by simp
qed


subsection \<open>The symmetry check\<close>

lemma needsFixLoop_iff:
  "needsFixLoop dpr ws b \<longleftrightarrow> b \<or> (\<exists>w \<in> set ws. wrapperNeedsFix dpr w)"
  by (induction ws arbitrary: b) auto

lemma mid_median_spec: "mid centers = median_spec centers"
proof (cases "odd (length centers)")
  case True
  then have "length centers mod 2 = 1" by (simp add: odd_iff_mod_2_eq_one)
  moreover have "(length centers - 1) div 2 = length centers div 2"
    using True by (metis dvd_mult_div_cancel odd_two_times_div_two_nat nonzero_mult_div_cancel_left zero_neq_numeral)
  ultimately show ?thesis using True by (simp add: mid_def median_spec_def Let_def)
next
  case False
  then have "length centers mod 2 \<noteq> 1" by (simp add: odd_iff_mod_2_eq_one)
  then show ?thesis using False by (simp add: mid_def median_spec_def Let_def)
qed

lemma snap_round: "snap dpr v = of_int (round (v * dpr)) / dpr"
  by (simp add: snap_def round_def)

lemma filter_Boolean:
  "List.map_filter (\<lambda>child. child) cs = map the (filter (\<lambda>child. child \<noteq> None) cs)"
  by (simp add: map_filter_def)

text \<open>
  Claim C8. With \<open>dpr\<close> the device pixel ratio (1 when it is 0), the check snaps every
  vertical center \<open>rect.top + rect.height / 2\<close> to the device-pixel grid,
  \<open>Math.round(v * dpr) / dpr\<close>. \<open>validateSymmetry\<close> returns true exactly when some wrapper
  with a card and a non-empty list of child cards has the median of the sorted snapped
  centers of its child cards (midpoint element for an odd count, average of the two central
  elements for an even count) further than 1 pixel from the snapped center of its own card.
\<close>

theorem validateSymmetry_median:
  "validateSymmetry d ws \<longleftrightarrow>
     (\<exists>w \<in> set ws. \<exists>parentRect childWrappers.
        card_rect w = Some parentRect \<and> childCards w = Some childWrappers \<and>
        (let dpr = (if d = 0 then 1 else d);
             centers = sort (map (\<lambda>r. of_int (round ((rect_top r + rect_height r / 2) * dpr)) / dpr)
                         (map the (filter (\<lambda>c. c \<noteq> None) childWrappers)))
         in centers \<noteq> [] \<and>
            \<bar>median_spec centers
               - of_int (round ((rect_top parentRect + rect_height parentRect / 2) * dpr)) / dpr\<bar> > 1))"
proof -
  have "wrapperNeedsFix dpr w \<longleftrightarrow>
      (\<exists>parentRect childWrappers.
        card_rect w = Some parentRect \<and> childCards w = Some childWrappers \<and>
        (let centers = sort (map (\<lambda>r. of_int (round ((rect_top r + rect_height r / 2) * dpr)) / dpr)
                         (map the (filter (\<lambda>c. c \<noteq> None) childWrappers)))
         in centers \<noteq> [] \<and>
            \<bar>median_spec centers
               - of_int (round ((rect_top parentRect + rect_height parentRect / 2) * dpr)) / dpr\<bar> > 1))"
    for dpr w
    by (auto simp: wrapperNeedsFix_def mid_median_spec Let_def snap_round filter_Boolean
        split: option.splits)
  then show ?thesis
    by (simp add: validateSymmetry_def needsFixLoop_iff effective_dpr_def Let_def)
qed

theorem validateSymmetry_median_witness:
  "validateSymmetry 0
     [\<lparr>card_rect = Some \<lparr>rect_left = 0, rect_top = 100, rect_width = 80, rect_height = 40\<rparr>,
       childCards = Some
         [Some \<lparr>rect_left = 100, rect_top = 90, rect_width = 80, rect_height = 20\<rparr>,
          None,
          Some \<lparr>rect_left = 100, rect_top = 10, rect_width = 80, rect_height = 20\<rparr>]\<rparr>] \<and>
   \<not> validateSymmetry 2
     [\<lparr>card_rect = Some \<lparr>rect_left = 0, rect_top = 100, rect_width = 80, rect_height = 40\<rparr>,
       childCards = Some
         [Some \<lparr>rect_left = 100, rect_top = 80, rect_width = 80, rect_height = 20\<rparr>,
          Some \<lparr>rect_left = 100, rect_top = 110.2, rect_width = 80, rect_height = 20\<rparr>,
          Some \<lparr>rect_left = 100, rect_top = 140, rect_width = 80, rect_height = 20\<rparr>]\<rparr>]"
  using validateSymmetry_median [where d = 0 and ws =
     "[\<lparr>card_rect = Some \<lparr>rect_left = 0, rect_top = 100, rect_width = 80, rect_height = 40\<rparr>,
       childCards = Some
         [Some \<lparr>rect_left = 100, rect_top = 90, rect_width = 80, rect_height = 20\<rparr>,
          None,
          Some \<lparr>rect_left = 100, rect_top = 10, rect_width = 80, rect_height = 20\<rparr>]\<rparr>]"]
    validateSymmetry_median [where d = 2 and ws =
     "[\<lparr>card_rect = Some \<lparr>rect_left = 0, rect_top = 100, rect_width = 80, rect_height = 40\<rparr>,
       childCards = Some
         [Some \<lparr>rect_left = 100, rect_top = 80, rect_width = 80, rect_height = 20\<rparr>,
          Some \<lparr>rect_left = 100, rect_top = 110.2, rect_width = 80, rect_height = 20\<rparr>,
          Some \<lparr>rect_left = 100, rect_top = 140, rect_width = 80, rect_height = 20\<rparr>]\<rparr>]"]
  by (simp add: median_spec_def round_def Let_def)

text \<open>
  The comparison is between snapped centers, not between the centers themselves. At ratio 1
  a parent card with center 120.4 and one child card with center 121.45 are 1.05 pixels
  apart and the check does not flag them (both snap to whole pixels, 120 and 121). A parent
  with center 120.4 and two child cards with centers 121.5 and 120.5 has the median of the
  centers 0.6 pixels from its own center, and the check flags it (the snapped centers 122
  and 121 have median 121.5, the parent's snapped center is 120).
\<close>

theorem validateSymmetry_unsnapped_counterexample:
  "\<not> validateSymmetry 1
     [\<lparr>card_rect = Some \<lparr>rect_left = 0, rect_top = 100.4, rect_width = 80, rect_height = 40\<rparr>,
       childCards = Some
         [Some \<lparr>rect_left = 100, rect_top = 111.45, rect_width = 80, rect_height = 20\<rparr>]\<rparr>] \<and>
   \<bar>median_spec (sort [111.45 + 20 / 2]) - (100.4 + 40 / 2)\<bar> > (1 :: real) \<and>
   validateSymmetry 1
     [\<lparr>card_rect = Some \<lparr>rect_left = 0, rect_top = 100.4, rect_width = 80, rect_height = 40\<rparr>,
       childCards = Some
         [Some \<lparr>rect_left = 100, rect_top = 111.5, rect_width = 80, rect_height = 20\<rparr>,
          Some \<lparr>rect_left = 100, rect_top = 110.5, rect_width = 80, rect_height = 20\<rparr>]\<rparr>] \<and>
   \<not> \<bar>median_spec (sort [111.5 + 20 / 2, 110.5 + 20 / 2]) - (100.4 + 40 / 2)\<bar> > (1 :: real)"
  by (simp add: validateSymmetry_def effective_dpr_def wrapperNeedsFix_def snap_def mid_def
      median_spec_def map_filter_simps Let_def)

subsection \<open>The drop zones\<close>

text \<open>
  Claim C7. For a valid drop target (a card under the pointer whose id is present, is not
  the dragged node and is not a descendant of it), the intent names that target and its mode
  is decided by \<open>y = clientY - rect.top\<close>: sibling-before when \<open>y < 0.25 * height\<close>,
  sibling-after when \<open>y > 0.75 * height\<close>, child otherwise. The witness is the card
  spanning rows 100 to 200 with the pointer at rows 120, 150 and 190.
\<close>

theorem drop_zone_classification:
  assumes "hit = Some (Some tid, r)"
    and "tid \<noteq> []" and "tid \<noteq> draggingNodeId"
    and "\<not> isDescendant nodes draggingNodeId tid"
  shows "map_option (\<lambda>d. (mode d, targetId d))
           (computeActiveDropIntent nodes hit clientY draggingNodeId) =
         Some (if clientY - rect_top r < 0.25 * rect_height r then Drop_sibling_before
               else if clientY - rect_top r > 0.75 * rect_height r then Drop_sibling_after
               else Drop_child, tid)"
  using assms by (simp add: computeActiveDropIntent_def Let_def mult.commute)

theorem drop_zone_classification_witness:
  "map (\<lambda>row. map_option (\<lambda>d. (mode d, targetId d))
         (computeActiveDropIntent example_forest
            (Some (Some ''D'', \<lparr>rect_left = 0, rect_top = 100, rect_width = 80, rect_height = 100\<rparr>))
            row ''B''))
     [120, 150, 190] =
   [Some (Drop_sibling_before, ''D''), Some (Drop_child, ''D''), Some (Drop_sibling_after, ''D'')]"
proof -
  let ?r = "\<lparr>rect_left = 0, rect_top = 100, rect_width = 80, rect_height = 100\<rparr>"
  have d: "\<not> isDescendant example_forest ''B'' ''D''"
    by (simp add: isDescendant_def example_defs)
  have n: "''D'' \<noteq> []" "''D'' \<noteq> ''B''" by simp_all
  show ?thesis
    using drop_zone_classification [OF refl n d, where r = ?r and clientY = 120]
      drop_zone_classification [OF refl n d, where r = ?r and clientY = 150]
      drop_zone_classification [OF refl n d, where r = ?r and clientY = 190]
    by simp
qed

subsection \<open>Lookups\<close>

lemma findNodeById_None_iff: "findNodeById ns i = None \<longleftrightarrow> i \<notin> set (ids ns)"
  by (induction ns i rule: findNodeById.induct) (auto split: option.splits)

lemma findNodeById_Some_id: "findNodeById ns i = Some n \<Longrightarrow> nodeId (props n) = i"
  by (induction ns i rule: findNodeById.induct) (auto split: option.splits if_splits)

lemma ancestors_spec_None_iff: "ancestors_spec ns i = None \<longleftrightarrow> i \<notin> set (ids ns)"
  by (induction ns i rule: ancestors_spec.induct) (auto split: option.splits)

lemma findParents_acc:
  "findParents ns i chain =
     (case ancestors_spec ns i of None \<Rightarrow> (False, chain) | Some path \<Rightarrow> (True, rev path @ chain))"
proof (induction ns i chain rule: findParents.induct)
  case (1 tid chain)
  then show ?case by simp
next
  case (2 f cs currentNodes tid chain)
  show ?case
  proof (cases "nodeId f = tid")
    case True
    then show ?thesis by simp
  next
    case False
    show ?thesis
    proof (cases "findNodeById cs tid")
      case None
      then have "ancestors_spec cs tid = None"
        by (simp add: ancestors_spec_None_iff findNodeById_None_iff)
      with 2 False None show ?thesis by simp
    next
      case (Some a)
      then obtain path where "ancestors_spec cs tid = Some path"
        using ancestors_spec_None_iff findNodeById_None_iff
        by (metis option.exhaust option.distinct(1))
      with 2 False Some show ?thesis by simp
    qed
  qed
qed

lemma ancestors_spec_path: "ancestors_spec ns i = Some path \<Longrightarrow> is_ancestor_path ns path i"
proof (induction ns i arbitrary: path rule: ancestors_spec.induct)
  case (1 i)
  then show ?case by simp
next
  case (2 f cs rest i)
  show ?case
  proof (cases "nodeId f = i")
    case True
    with 2 show ?thesis by (auto simp: list_ex_iff)
  next
    case False
    show ?thesis
    proof (cases "ancestors_spec cs i")
      case None
      with 2 False have "is_ancestor_path rest path i" by simp
      then show ?thesis
        by (cases path) (auto simp: list_ex_iff)
    next
      case (Some p)
      with 2 False have "path = Node f cs # p" "is_ancestor_path cs p i" by auto
      then show ?thesis by (simp add:)
    qed
  qed
qed

lemma ancestors_spec_root:
  "distinct (ids ns) \<Longrightarrow> list_ex (\<lambda>n. nodeId (props n) = i) ns \<Longrightarrow> ancestors_spec ns i = Some []"
proof (induction ns i rule: ancestors_spec.induct)
  case (1 i)
  then show ?case by simp
next
  case (2 f cs rest i)
  show ?case
  proof (cases "nodeId f = i")
    case True
    then show ?thesis by simp
  next
    case False
    with 2 have ex: "list_ex (\<lambda>n. nodeId (props n) = i) rest" by simp
    have "i \<in> set (ids rest)"
      using ex by (induction rest rule: ids.induct) auto
    with 2 have "i \<notin> set (ids cs)" by auto
    then have "ancestors_spec cs i = None" by (simp add: ancestors_spec_None_iff)
    with 2 False ex show ?thesis by simp
  qed
qed

text \<open>
  Claim C4, as amended. \<open>getParentChain\<close> returns the ancestors of the node, the node
  itself excluded, ordered from the immediate parent up to the shallowest ancestor (a
  root): it is the reverse of the path from the root down to the parent. It returns the
  empty sequence when no node has the id and, in a forest with distinct ids, when the node
  is a root.
\<close>

theorem getParentChain_parent_first:
  "(findNodeById nodes i = None \<longrightarrow> getParentChain nodes i = []) \<and>
   (distinct (ids nodes) \<and> list_ex (\<lambda>n. nodeId (props n) = i) nodes
      \<longrightarrow> getParentChain nodes i = []) \<and>
   (\<forall>path. ancestors_spec nodes i = Some path \<longrightarrow>
      is_ancestor_path nodes path i \<and> getParentChain nodes i = rev path)"
  using ancestors_spec_None_iff [of nodes i] findNodeById_None_iff [of nodes i]
    ancestors_spec_root [of nodes i] ancestors_spec_path [of nodes i]
  by (auto simp: getParentChain_def findParents_acc)

theorem getParentChain_parent_first_witness:
  "getParentChain example_forest ''C'' = [nodeB, nodeA] \<and>
   getParentChain example_forest ''D'' = [] \<and>
   getParentChain example_forest ''Z'' = []"
proof -
  have a: "ancestors_spec example_forest ''C'' = Some [nodeA, nodeB]"
    by (simp add: example_defs)
  have d: "distinct (ids example_forest) \<and> list_ex (\<lambda>n. nodeId (props n) = ''D'') example_forest"
    by (simp add: example_defs)
  have z: "findNodeById example_forest ''Z'' = None"
    by (simp add: example_defs)
  show ?thesis
    using getParentChain_parent_first [of example_forest "''C''"] a
      getParentChain_parent_first [of example_forest "''D''"] d
      getParentChain_parent_first [of example_forest "''Z''"] z
    by simp
qed

text \<open>
  Claim C4 as stated fails: for the node \<open>C\<close> under \<open>B\<close> under the root \<open>A\<close> the ancestors
  from the shallowest down are \<open>A, B\<close>, and \<open>getParentChain\<close> returns \<open>B, A\<close>.
\<close>

theorem getParentChain_order_counterexample:
  "ancestors_spec example_forest ''C'' = Some [nodeA, nodeB] \<and>
   getParentChain example_forest ''C'' = [nodeB, nodeA] \<and>
   getParentChain example_forest ''C'' \<noteq> [nodeA, nodeB]"
  by (simp add: example_defs getParentChain_def)

subsection \<open>\<open>addSiblingNode\<close>\<close>

lemma findWithParentLoop_None_iff:
  "findWithParentLoop whole ns i = None \<longleftrightarrow> i \<notin> set (ids ns)"
  by (induction whole ns i rule: findWithParentLoop.induct) (auto split: option.splits)

lemma addSibling_None_iff:
  "fst (addSibling x t n ns pid) = None \<longleftrightarrow> x \<notin> set (ids ns)"
  by (induction x t n ns pid rule: addSibling.induct)
     (auto split: option.splits prod.splits)

lemma addSibling_not_found:
  "x \<notin> set (ids ns) \<Longrightarrow> addSibling x t n ns pid = (None, ns)"
  by (induction x t n ns pid rule: addSibling.induct)
     (auto split: option.splits prod.splits)





subsection \<open>\<open>moveNode\<close>\<close>

lemmas siblings_defs = siblings_forest_def nodeX_def nodeY_def nodeZ_def mk_def

lemma ids_single: "ids [n] = nodeId (props n) # ids (children n)"
  by (cases n) simp

lemma spliceAtTarget_found:
  assumes "findWithParentLoop (pre0 @ ns) ns t = Some (T, arr)"
    and "t \<notin> set (map (\<lambda>n. nodeId (props n)) pre0)"
    and "t \<notin> set (ids [m])"
  shows "\<exists>pre post. arr = pre @ T # post \<and> t \<notin> set (map (\<lambda>n. nodeId (props n)) pre) \<and>
           findWithParentLoop (pre0 @ spliceAtTarget t after m ns) (spliceAtTarget t after m ns) t =
             Some (T, if after then pre @ T # m # post else pre @ m # T # post)"
  using assms
proof (induction t after m ns arbitrary: pre0 rule: spliceAtTarget.induct)
  case (1 tid after n)
  then show ?case by simp
next
  case (2 tid after n f cs rest)
  obtain g ds where n: "n = Node g ds" by (cases n)
  with 2(5) have ng: "nodeId g \<noteq> tid" and nd: "tid \<notin> set (ids ds)" by auto
  then have fd: "findWithParentLoop ds ds tid = None" by (simp add: findWithParentLoop_None_iff)
  show ?case
  proof (cases "nodeId f = tid")
    case True
    with 2(3,4) ng fd n have
      "arr = pre0 @ T # rest \<and> tid \<notin> set (map (\<lambda>n. nodeId (props n)) pre0) \<and>
       findWithParentLoop (pre0 @ spliceAtTarget tid after n (Node f cs # rest))
          (spliceAtTarget tid after n (Node f cs # rest)) tid =
         Some (T, if after then pre0 @ T # n # rest else pre0 @ n # T # rest)"
      by auto
    then show ?thesis by blast
  next
    case False
    show ?thesis
    proof (cases "findWithParentLoop cs cs tid")
      case (Some found)
      then have in_cs: "findNodeById cs tid \<noteq> None"
        using findWithParentLoop_None_iff [of cs cs tid] findNodeById_None_iff [of cs tid] by simp
      from Some 2(3) False have f: "findWithParentLoop ([] @ cs) cs tid = Some (T, arr)" by simp
      from 2(1) [OF False in_cs f _ 2(5)] obtain pre post where
        "arr = pre @ T # post" "tid \<notin> set (map (\<lambda>n. nodeId (props n)) pre)"
        "findWithParentLoop (spliceAtTarget tid after n cs) (spliceAtTarget tid after n cs) tid =
           Some (T, if after then pre @ T # n # post else pre @ n # T # post)"
        by auto
      then show ?thesis using False in_cs by auto
    next
      case None
      then have not_cs: "\<not> findNodeById cs tid \<noteq> None"
        using findWithParentLoop_None_iff [of cs cs tid] findNodeById_None_iff [of cs tid] by simp
      from 2(3) False None
      have f: "findWithParentLoop ((pre0 @ [Node f cs]) @ rest) rest tid = Some (T, arr)" by simp
      have k: "tid \<notin> set (map (\<lambda>n. nodeId (props n)) (pre0 @ [Node f cs]))"
        using 2(4) False by simp
      from 2(2) [OF False not_cs f k 2(5)] obtain pre post where
        "arr = pre @ T # post" "tid \<notin> set (map (\<lambda>n. nodeId (props n)) pre)"
        "findWithParentLoop ((pre0 @ [Node f cs]) @ spliceAtTarget tid after n rest)
           (spliceAtTarget tid after n rest) tid =
           Some (T, if after then pre @ T # n # post else pre @ n # T # post)"
        by auto
      then show ?thesis using False None not_cs by auto
    qed
  qed
qed


lemma ids_append: "ids (xs @ ys) = ids xs @ ids ys"
  by (induction xs rule: ids.induct) auto

lemma ids_Cons: "ids (n # ns) = ids [n] @ ids ns"
  by (cases n) simp

lemma ids_map_cong:
  "(\<And>c. c \<in> set cs \<Longrightarrow> ids [g c] = ids [c]) \<Longrightarrow> ids (map g cs) = ids cs"
proof (induction cs)
  case Nil
  then show ?case by simp
next
  case (Cons c cs)
  have "ids (map g (c # cs)) = ids [g c] @ ids (map g cs)"
    using ids_Cons [of "g c" "map g cs"] by simp
  also have "\<dots> = ids [c] @ ids cs" using Cons by simp
  also have "\<dots> = ids (c # cs)" using ids_Cons [of c cs] by simp
  finally show ?case .
qed

lemma ids_updateNodeLevels: "ids [updateNodeLevels n l] = ids [n]"
proof (induction n l rule: updateNodeLevels.induct)
  case (1 f cs lvl)
  have "ids (map (\<lambda>child. updateNodeLevels child (lvl + 1)) cs) = ids cs"
    by (rule ids_map_cong) (use 1 in simp)
  then show ?case by simp
qed

lemma ids_setParentId: "ids [setParentId n p] = ids [n]"
  by (cases n) (simp add: setParentId_def)

lemma nodeId_updateNodeLevels: "nodeId (props (updateNodeLevels n l)) = nodeId (props n)"
  by (cases n) simp

lemma nodeId_setParentId: "nodeId (props (setParentId n p)) = nodeId (props n)"
  by (simp add: setParentId_def)

lemma findWithParentLoop_Some:
  assumes "findWithParentLoop (pre0 @ ns) ns i = Some (n, arr)"
    and "i \<notin> set (map (\<lambda>n. nodeId (props n)) pre0)"
  shows "findNodeById ns i = Some n \<and> nodeId (props n) = i \<and>
         (\<exists>pre post. arr = pre @ n # post \<and> i \<notin> set (map (\<lambda>n. nodeId (props n)) pre))"
  using assms
proof (induction ns i arbitrary: pre0 rule: findNodeById.induct)
  case (1 i)
  then show ?case by simp
next
  case (2 f cs nodes i)
  show ?case
  proof (cases "nodeId f = i")
    case True
    with 2(3,4) show ?thesis by auto
  next
    case False
    show ?thesis
    proof (cases "findWithParentLoop cs cs i")
      case None
      then have nf: "findNodeById cs i = None"
        by (simp add: findWithParentLoop_None_iff findNodeById_None_iff)
      from 2(3) False None
      have f: "findWithParentLoop ((pre0 @ [Node f cs]) @ nodes) nodes i = Some (n, arr)" by simp
      have k: "i \<notin> set (map (\<lambda>n. nodeId (props n)) (pre0 @ [Node f cs]))"
        using 2(4) False by simp
      from 2(2) [OF False nf f k] show ?thesis using False nf by simp
    next
      case (Some found)
      with 2(3) False have f: "findWithParentLoop ([] @ cs) cs i = Some (n, arr)" by simp
      from 2(1) [OF False f] show ?thesis using False by simp
    qed
  qed
qed

lemma findWithParentLoop_exists:
  "i \<in> set (ids ns) \<Longrightarrow> \<exists>n arr. findWithParentLoop whole ns i = Some (n, arr)"
  using findWithParentLoop_None_iff [of whole ns i] by (cases "findWithParentLoop whole ns i") auto

lemma deleteFromArray_fst: "fst (deleteFromArray i ns) \<longleftrightarrow> i \<in> set (ids ns)"
  by (induction i ns rule: deleteFromArray.induct) (auto split: prod.splits bool.splits)

lemma deleteFromArray_not_found: "i \<notin> set (ids ns) \<Longrightarrow> deleteFromArray i ns = (False, ns)"
  by (induction i ns rule: deleteFromArray.induct) (auto split: prod.splits bool.splits)

lemma mset_ids_delete:
  "findNodeById ns i = Some src \<Longrightarrow>
   mset (ids ns) = mset (ids (snd (deleteFromArray i ns))) + mset (ids [src])"
proof (induction i ns rule: deleteFromArray.induct)
  case (1 i)
  then show ?case by simp
next
  case (2 i f cs rest)
  show ?case
  proof (cases "nodeId f = i")
    case True
    with 2(3) show ?thesis by auto
  next
    case False
    show ?thesis
    proof (cases "findNodeById cs i")
      case None
      then have "i \<notin> set (ids cs)" by (simp add: findNodeById_None_iff)
      then have d: "deleteFromArray i cs = (False, cs)" by (rule deleteFromArray_not_found)
      from 2(3) False None have "findNodeById rest i = Some src" by simp
      from 2(2) [OF False d [symmetric] _ this] d False show ?thesis
        by (auto split: prod.splits)
    next
      case (Some a)
      with 2(3) False have s: "findNodeById cs i = Some src" by simp
      then have "i \<in> set (ids cs)" using findNodeById_None_iff [of cs i] by auto
      then have "fst (deleteFromArray i cs)" by (simp add: deleteFromArray_fst)
      then obtain cs' where d: "deleteFromArray i cs = (True, cs')"
        by (cases "deleteFromArray i cs") auto
      from 2(1) [OF False s] d False show ?thesis by simp
    qed
  qed
qed

text \<open>
  Claim C1 fails on the code: \<open>moveNode\<close> has no test for a target inside the moved
  subtree. In the example forest (\<open>C\<close> under \<open>B\<close> under the root \<open>A\<close>, and the root \<open>D\<close>),
  moving \<open>A\<close> to \<open>C\<close> removes \<open>A\<close> and its subtree from the forest: in child mode the call
  ends in the engine's \<open>RangeError\<close>, in sibling mode it returns true. In neither case does
  it return false with the forest unchanged.
\<close>

theorem moveNode_into_descendant_detaches:
  "isDescendant example_forest ''A'' ''C'' \<and>
   moveNode example_forest ''A'' ''C'' Child Append = (RangeError, [nodeD]) \<and>
   moveNode example_forest ''A'' ''C'' Sibling After = (Returned True, [nodeD]) \<and>
   [nodeD] \<noteq> example_forest"
  by (simp add: moveNode_def findNodeWithParent_def isDescendant_def targetInsideSource_def
      example_defs Let_def)

theorem moveNode_into_descendant_detaches_witness:
  "fst (moveNode example_forest ''A'' ''C'' Child Append) = RangeError \<and>
   snd (moveNode example_forest ''A'' ''C'' Child Append) = [nodeD] \<and>
   moveNode example_forest ''A'' ''C'' Sibling After \<noteq> (Returned False, example_forest)"
  using moveNode_into_descendant_detaches by simp

text \<open>
  Claim C3, as amended. For a node \<open>nid\<close> and a different target \<open>tid\<close>, both in the
  forest, with no node of id \<open>tid\<close> inside the subtree of \<open>nid\<close>, \<open>moveNode\<close> in sibling mode with
  position \<open>append\<close> returns true and does what position \<open>before\<close> does: where the target's
  containing sequence without the moved node is \<open>pre @ T # post\<close>, it becomes
  \<open>pre @ moved # T # post\<close>, the moved node (same id, same subtree ids) immediately before
  the target.
\<close>

theorem moveNode_sibling_append_before:
  assumes "nid \<noteq> tid"
    and "findNodeById nodes nid = Some source"
    and "findNodeById nodes tid \<noteq> None"
    and "findNodeById (children source) tid = None"
  shows "\<exists>nodes' T pre post moved.
           moveNode nodes nid tid Sibling Append = (Returned True, nodes') \<and>
           moveNode nodes nid tid Sibling Before = (Returned True, nodes') \<and>
           nodeId (props moved) = nid \<and> ids [moved] = ids [source] \<and>
           findNodeWithParent (snd (deleteFromArray nid nodes)) tid = Some (T, pre @ T # post) \<and>
           findNodeWithParent nodes' tid = Some (T, pre @ moved # T # post)"
proof -
  define nodes1 where "nodes1 = snd (deleteFromArray nid nodes)"
  have src_id: "nodeId (props source) = nid"
    using assms(2) by (rule findNodeById_Some_id)
  have "nid \<in> set (ids nodes)" using assms(2) findNodeById_None_iff [of nodes nid] by auto
  then obtain s sp where sp: "findNodeWithParent nodes nid = Some (s, sp)"
    using findWithParentLoop_exists [of nid nodes nodes] by (auto simp: findNodeWithParent_def)
  then have "findWithParentLoop ([] @ nodes) nodes nid = Some (s, sp)"
    by (simp add: findNodeWithParent_def)
  from findWithParentLoop_Some [OF this] assms(2)
  have s: "s = source" and sp_ex: "list_ex (\<lambda>n. nodeId (props n) = nid) sp"
    by (auto simp: list_ex_iff)
  have tin: "tid \<in> set (ids nodes)" using assms(3) findNodeById_None_iff [of nodes tid] by auto
  then obtain t0 tp0 where tp0: "findNodeWithParent nodes tid = Some (t0, tp0)"
    using findWithParentLoop_exists [of tid nodes nodes] by (auto simp: findNodeWithParent_def)
  have not_src: "tid \<notin> set (ids [source])"
    using assms(1,4) src_id by (simp add: ids_single findNodeById_None_iff)
  have "mset (ids nodes) = mset (ids nodes1) + mset (ids [source])"
    unfolding nodes1_def using assms(2) by (rule mset_ids_delete)
  then have "set (ids nodes) = set (ids nodes1) \<union> set (ids [source])"
    by (metis set_mset_mset set_mset_union)
  with tin not_src have tin1: "tid \<in> set (ids nodes1)" by auto
  then obtain T arr where T: "findWithParentLoop ([] @ nodes1) nodes1 tid = Some (T, arr)"
    using findWithParentLoop_exists [of tid nodes1 nodes1] by auto
  from findWithParentLoop_Some [OF this]
  have arr_ex: "list_ex (\<lambda>n. nodeId (props n) = tid) arr" by (auto simp: list_ex_iff)
  define P where "P = findParentNode (spliceAtTarget tid False source nodes1) tid"
  define newParentId where "newParentId = map_option (\<lambda>p. nodeId (props p)) P"
  define newLevel where "newLevel = (case P of None \<Rightarrow> 1 | Some p \<Rightarrow> level (props p) + 1)"
  define moved where "moved =
     (if parentId (props source) \<noteq> newParentId \<or> level (props source) \<noteq> newLevel
      then updateNodeLevels (setParentId source newParentId) newLevel else source)"
  have m_ids: "ids [moved] = ids [source]"
    by (simp add: moved_def ids_updateNodeLevels ids_setParentId)
  have m_id: "nodeId (props moved) = nid"
    by (simp add: moved_def nodeId_updateNodeLevels nodeId_setParentId src_id)
  have mv: "moveNode nodes nid tid Sibling pos = (Returned True, spliceAtTarget tid False moved nodes1)"
    if "pos \<noteq> After" for pos
    using that assms(1,4) sp tp0 s sp_ex T arr_ex
    by (simp add: moveNode_def Let_def findNodeWithParent_def targetInsideSource_def
        nodes1_def [symmetric] P_def [symmetric] newParentId_def [symmetric]
        newLevel_def [symmetric] moved_def)
  from spliceAtTarget_found [OF T, of moved False] not_src m_ids
  obtain pre post where
    "arr = pre @ T # post"
    "findWithParentLoop (spliceAtTarget tid False moved nodes1) (spliceAtTarget tid False moved nodes1) tid
       = Some (T, pre @ moved # T # post)"
    by auto
  with T mv [of Append] mv [of Before] m_id m_ids show ?thesis
    by (auto simp: findNodeWithParent_def nodes1_def)
qed


theorem moveNode_sibling_append_before_witness:
  "\<exists>moved. nodeId (props moved) = ''D'' \<and>
     map_option snd
       (findNodeWithParent (snd (moveNode example_forest ''D'' ''B'' Sibling Append)) ''B'')
     = Some [moved, nodeB]"
proof -
  have h: "''D'' \<noteq> ''B''"
    "findNodeById example_forest ''D'' = Some nodeD"
    "findNodeById example_forest ''B'' \<noteq> None"
    "findNodeById (children nodeD) ''B'' = None"
    by (simp_all add: example_defs)
  have d: "findNodeWithParent (snd (deleteFromArray ''D'' example_forest)) ''B''
           = Some (nodeB, [nodeB])"
    by (simp add: example_defs findNodeWithParent_def)
  have b: "nodeId (props nodeB) = ''B''" by (simp add: example_defs)
  from moveNode_sibling_append_before [OF h] obtain nodes' T pre post moved where r:
    "moveNode example_forest ''D'' ''B'' Sibling Append = (Returned True, nodes')"
    "nodeId (props moved) = ''D''"
    "findNodeWithParent (snd (deleteFromArray ''D'' example_forest)) ''B'' = Some (T, pre @ T # post)"
    "findNodeWithParent nodes' ''B'' = Some (T, pre @ moved # T # post)"
    by blast
  from r(3) d have "T = nodeB" "[nodeB] = pre @ nodeB # post" by simp_all
  then have "pre = [] \<and> post = []" by (cases pre) auto
  with r(1,2,4) \<open>T = nodeB\<close> show ?thesis by auto
qed

text \<open>
  Claim C3 as stated fails: moving \<open>X\<close> next to its sibling \<open>Y\<close> with position \<open>append\<close>
  leaves the children of \<open>R\<close> as \<open>X, Y, Z\<close>; the moved node is not at the end of the
  target's sequence.
\<close>

theorem moveNode_sibling_append_counterexample:
  "map_option snd
     (findNodeWithParent (snd (moveNode siblings_forest ''X'' ''Y'' Sibling Append)) ''Y'')
   = Some [nodeX, nodeY, nodeZ] \<and>
   nodeId (props (last [nodeX, nodeY, nodeZ])) \<noteq> ''X''"
  by (simp add: moveNode_def findNodeWithParent_def targetInsideSource_def siblings_defs
      setParentId_def Let_def)

subsection \<open>The invariants under the mutators\<close>

lemma levels_ok_append: "levels_ok l (xs @ ys) \<longleftrightarrow> levels_ok l xs \<and> levels_ok l ys"
  by (induction l xs rule: levels_ok.induct) auto

lemma parents_ok_append: "parents_ok p (xs @ ys) \<longleftrightarrow> parents_ok p xs \<and> parents_ok p ys"
  by (induction p xs rule: parents_ok.induct) auto

lemma levels_ok_Cons: "levels_ok l (n # ns) \<longleftrightarrow> levels_ok l [n] \<and> levels_ok l ns"
  by (cases n) simp

lemma parents_ok_Cons: "parents_ok p (n # ns) \<longleftrightarrow> parents_ok p [n] \<and> parents_ok p ns"
  by (cases n) simp

lemma levels_ok_newNode: "levels_ok l [newNode n t l p]"
  by (simp add: newNode_def)

lemma parents_ok_newNode: "parents_ok p [newNode n t l p]"
  by (simp add: newNode_def)

lemma ids_newNode: "ids [newNode n t l p] = [n]"
  by (simp add: newNode_def)

lemma distinct_acyclic: "distinct (ids ns) \<Longrightarrow> acyclic_ids ns"
  by (induction ns rule: acyclic_ids.induct) auto

lemma addSibling_levels: "levels_ok l ns \<Longrightarrow> levels_ok l (snd (addSibling x t n ns pid))"
  by (induction x t n ns pid arbitrary: l rule: addSibling.induct)
     (auto simp: newNode_def split: option.splits prod.splits)

lemma addSibling_parents: "parents_ok pid ns \<Longrightarrow> parents_ok pid (snd (addSibling x t n ns pid))"
  by (induction x t n ns pid rule: addSibling.induct)
     (auto simp: newNode_def split: option.splits prod.splits)

lemma addSibling_ids:
  "mset (ids (snd (addSibling x t n ns pid))) =
     mset (ids ns) + (if x \<in> set (ids ns) then {#n#} else {#})"
proof (induction x t n ns pid rule: addSibling.induct)
  case (1 tid ttl newId pid)
  then show ?case by simp
next
  case (2 tid ttl newId f cs rest pid)
  show ?case
  proof (cases "nodeId f = tid")
    case True
    then show ?thesis by (simp add: newNode_def)
  next
    case False
    show ?thesis
    proof (cases "tid \<in> set (ids cs)")
      case True
      then have "fst (addSibling tid ttl newId cs (Some (nodeId f))) \<noteq> None"
        by (simp add: addSibling_None_iff)
      then obtain c cs' where a: "addSibling tid ttl newId cs (Some (nodeId f)) = (Some c, cs')"
        by (cases "addSibling tid ttl newId cs (Some (nodeId f))") auto
      with 2(1) [OF False] True False show ?thesis by simp
    next
      case nf: False
      then have a: "addSibling tid ttl newId cs (Some (nodeId f)) = (None, cs)"
        by (rule addSibling_not_found)
      from 2(2) [OF False a [symmetric] refl] a nf False show ?thesis
        by (auto split: prod.splits)
    qed
  qed
qed

lemma pushChild_ids:
  "mset (ids (pushChild t x ns)) =
     mset (ids ns) + (if t \<in> set (ids ns) then mset (ids [x]) else {#})"
  by (induction t x ns rule: pushChild.induct)
     (auto simp: ids_append findNodeById_None_iff)

lemma pushChild_parents:
  "parents_ok p ns \<Longrightarrow> parents_ok (Some t) [x] \<Longrightarrow> parents_ok p (pushChild t x ns)"
  by (induction t x ns arbitrary: p rule: pushChild.induct)
     (auto simp: parents_ok_append)

lemma pushChild_levels:
  "levels_ok l ns \<Longrightarrow> findNodeById ns t = Some T \<Longrightarrow> levels_ok (level (props T) + 1) [x]
   \<Longrightarrow> levels_ok l (pushChild t x ns)"
  by (induction t x ns arbitrary: l rule: pushChild.induct)
     (auto simp: levels_ok_append split: option.splits if_splits)

lemma deleteFromArray_levels: "levels_ok l ns \<Longrightarrow> levels_ok l (snd (deleteFromArray i ns))"
  by (induction i ns arbitrary: l rule: deleteFromArray.induct)
     (auto split: prod.splits bool.splits)

lemma deleteFromArray_parents: "parents_ok p ns \<Longrightarrow> parents_ok p (snd (deleteFromArray i ns))"
  by (induction i ns arbitrary: p rule: deleteFromArray.induct)
     (auto split: prod.splits bool.splits)

lemma deleteFromArray_distinct: "distinct (ids ns) \<Longrightarrow> distinct (ids (snd (deleteFromArray i ns)))"
proof (cases "findNodeById ns i")
  case None
  assume "distinct (ids ns)"
  with None show ?thesis
    by (simp add: findNodeById_None_iff deleteFromArray_not_found)
next
  case (Some src)
  assume d: "distinct (ids ns)"
  from mset_ids_delete [OF Some]
  have "mset (ids ns) = mset (ids (snd (deleteFromArray i ns)) @ ids [src])" by simp
  then have "distinct (ids (snd (deleteFromArray i ns)) @ ids [src])"
    using d mset_eq_imp_distinct_iff by blast
  then show ?thesis by simp
qed


lemma levels_ok_map:
  "(\<And>c. c \<in> set cs \<Longrightarrow> levels_ok l [g c]) \<Longrightarrow> levels_ok l (map g cs)"
proof (induction cs)
  case Nil
  then show ?case by simp
next
  case (Cons c cs)
  then show ?case using levels_ok_Cons [of l "g c" "map g cs"] by simp
qed

lemma parents_ok_map_cong:
  "(\<And>c. c \<in> set cs \<Longrightarrow> parents_ok p [g c] = parents_ok p [c])
   \<Longrightarrow> parents_ok p (map g cs) = parents_ok p cs"
proof (induction cs)
  case Nil
  then show ?case by simp
next
  case (Cons c cs)
  then show ?case
    using parents_ok_Cons [of p "g c" "map g cs"] parents_ok_Cons [of p c cs] by simp
qed

lemma updateNodeLevels_levels: "levels_ok l [updateNodeLevels n l]"
proof (induction n l rule: updateNodeLevels.induct)
  case (1 f cs lvl)
  have "levels_ok (lvl + 1) (map (\<lambda>child. updateNodeLevels child (lvl + 1)) cs)"
    by (rule levels_ok_map) (use 1 in simp)
  then show ?case by simp
qed

lemma updateNodeLevels_parents: "parents_ok p [updateNodeLevels n l] = parents_ok p [n]"
proof (induction n l arbitrary: p rule: updateNodeLevels.induct)
  case (1 f cs lvl)
  have "parents_ok (Some (nodeId f)) (map (\<lambda>child. updateNodeLevels child (lvl + 1)) cs)
        = parents_ok (Some (nodeId f)) cs"
    by (rule parents_ok_map_cong) (use 1 in simp)
  then show ?case by simp
qed

lemma setParentId_parents:
  "parents_ok q [n] \<Longrightarrow> parents_ok p [setParentId n p]"
  by (cases n) (simp add: setParentId_def)

lemma found_levels_ok:
  "levels_ok l ns \<Longrightarrow> findNodeById ns i = Some n \<Longrightarrow> levels_ok (level (props n)) [n]"
  by (induction ns i arbitrary: l rule: findNodeById.induct)
     (auto split: option.splits if_splits)

lemma found_parents_ok:
  "parents_ok p ns \<Longrightarrow> findNodeById ns i = Some n \<Longrightarrow> parents_ok (parentId (props n)) [n]"
  by (induction ns i arbitrary: p rule: findNodeById.induct)
     (auto split: option.splits if_splits)

lemma delete_keeps_target:
  assumes "findNodeById ns i = Some src" and "findNodeById ns t = Some T"
    and "t \<notin> set (ids [src])"
  shows "\<exists>T1. findNodeById (snd (deleteFromArray i ns)) t = Some T1 \<and> props T1 = props T"
  using assms
proof (induction i ns rule: deleteFromArray.induct)
  case (1 i)
  then show ?case by simp
next
  case (2 i f cs rest)
  have "nodeId (props src) = i" using 2(3) by (rule findNodeById_Some_id)
  then have it: "i \<noteq> t" using 2(5) by (auto simp: ids_single)
  show ?case
  proof (cases "nodeId f = i")
    case True
    with 2(3) have "src = Node f cs" by simp
    with 2(5) have "t \<notin> set (ids cs)" by simp
    then have "findNodeById cs t = None" by (simp add: findNodeById_None_iff)
    with 2(4) True it show ?thesis by simp
  next
    case False
    show ?thesis
    proof (cases "findNodeById cs i")
      case (Some a)
      with 2(3) False have s: "findNodeById cs i = Some src" by simp
      then have "fst (deleteFromArray i cs)"
        using findNodeById_None_iff [of cs i] by (auto simp: deleteFromArray_fst)
      then obtain cs' where d: "deleteFromArray i cs = (True, cs')"
        by (cases "deleteFromArray i cs") auto
      show ?thesis
      proof (cases "nodeId f = t")
        case True
        with 2(4) d False show ?thesis by auto
      next
        case nt: False
        show ?thesis
        proof (cases "findNodeById cs t")
          case None
          then have "t \<notin> set (ids cs)" by (simp add: findNodeById_None_iff)
          moreover have "set (ids cs') \<subseteq> set (ids cs)"
            using mset_ids_delete [OF s] d
            by (metis Un_upper1 set_mset_mset set_mset_union snd_conv)
          ultimately have "findNodeById cs' t = None" by (auto simp: findNodeById_None_iff)
          with 2(4) None d False nt show ?thesis by simp
        next
          case (Some b)
          with 2(4) nt have "findNodeById cs t = Some T" by simp
          from 2(1) [OF False s this 2(5)] d False nt show ?thesis by auto
        qed
      qed
    next
      case None
      then have "i \<notin> set (ids cs)" by (simp add: findNodeById_None_iff)
      then have d: "deleteFromArray i cs = (False, cs)" by (rule deleteFromArray_not_found)
      from 2(3) False None have s: "findNodeById rest i = Some src" by simp
      show ?thesis
      proof (cases "nodeId f = t")
        case True
        with 2(4) d False show ?thesis by (auto split: prod.splits)
      next
        case nt: False
        show ?thesis
        proof (cases "findNodeById cs t")
          case (Some b)
          with 2(4) nt d False show ?thesis by (auto split: prod.splits)
        next
          case nn: None
          with 2(4) nt have "findNodeById rest t = Some T" by simp
          from 2(2) [OF False d [symmetric] _ s this 2(5)] d False nt nn show ?thesis
            by (auto split: prod.splits)
        qed
      qed
    qed
  qed
qed

lemma container_ctx_None_iff: "container_ctx p l ns t = None \<longleftrightarrow> t \<notin> set (ids ns)"
  by (induction p l ns t rule: container_ctx.induct) (auto split: option.splits)

lemma splice_ids:
  "t \<in> set (ids ns) \<Longrightarrow>
   mset (ids (spliceAtTarget t a x ns)) = mset (ids ns) + mset (ids [x])"
proof (induction t a x ns rule: spliceAtTarget.induct)
  case (1 tid after n)
  then show ?case by simp
next
  case (2 tid after n f cs rest)
  show ?case
  proof (cases "nodeId f = tid")
    case True
    then show ?thesis
      using ids_Cons [of n "Node f cs # rest"] ids_Cons [of n rest] by simp
  next
    case False
    with 2 show ?thesis by (auto simp: findNodeById_None_iff)
  qed
qed

lemma splice_parents:
  "parents_ok p ns \<Longrightarrow> container_ctx p l ns t = Some (p', l') \<Longrightarrow> parents_ok p' [x]
   \<Longrightarrow> parents_ok p (spliceAtTarget t a x ns)"
proof (induction t a x ns arbitrary: p l rule: spliceAtTarget.induct)
  case (1 tid after n)
  then show ?case by simp
next
  case (2 tid after n f cs rest)
  show ?case
  proof (cases "nodeId f = tid")
    case True
    with 2(3,4,5) show ?thesis
      using parents_ok_Cons [of p n "Node f cs # rest"] parents_ok_Cons [of p n rest] by simp
  next
    case False
    show ?thesis
    proof (cases "findNodeById cs tid")
      case None
      then have "container_ctx (Some (nodeId f)) (l + 1) cs tid = None"
        by (simp add: container_ctx_None_iff findNodeById_None_iff)
      with 2(4) False have "container_ctx p l rest tid = Some (p', l')" by simp
      from 2(2) [OF False _ _ this 2(5)] 2(3) None False show ?thesis by simp
    next
      case (Some a)
      then have "container_ctx (Some (nodeId f)) (l + 1) cs tid \<noteq> None"
        using findNodeById_None_iff [of cs tid] by (simp add: container_ctx_None_iff)
      with 2(4) False have "container_ctx (Some (nodeId f)) (l + 1) cs tid = Some (p', l')"
        by (auto split: option.splits)
      from 2(1) [OF False _ _ this 2(5)] 2(3) Some False show ?thesis by simp
    qed
  qed
qed

lemma splice_levels:
  "levels_ok l ns \<Longrightarrow> container_ctx p l ns t = Some (p', l') \<Longrightarrow> levels_ok l' [x]
   \<Longrightarrow> levels_ok l (spliceAtTarget t a x ns)"
proof (induction t a x ns arbitrary: p l rule: spliceAtTarget.induct)
  case (1 tid after n)
  then show ?case by simp
next
  case (2 tid after n f cs rest)
  show ?case
  proof (cases "nodeId f = tid")
    case True
    with 2(3,4,5) show ?thesis
      using levels_ok_Cons [of l n "Node f cs # rest"] levels_ok_Cons [of l n rest] by simp
  next
    case False
    show ?thesis
    proof (cases "findNodeById cs tid")
      case None
      then have "container_ctx (Some (nodeId f)) (l + 1) cs tid = None"
        by (simp add: container_ctx_None_iff findNodeById_None_iff)
      with 2(4) False have "container_ctx p l rest tid = Some (p', l')" by simp
      from 2(2) [OF False _ _ this 2(5)] 2(3) None False show ?thesis by simp
    next
      case (Some a)
      then have "container_ctx (Some (nodeId f)) (l + 1) cs tid \<noteq> None"
        using findNodeById_None_iff [of cs tid] by (simp add: container_ctx_None_iff)
      with 2(4) False have "container_ctx (Some (nodeId f)) (l + 1) cs tid = Some (p', l')"
        by (auto split: option.splits)
      from 2(1) [OF False _ _ this 2(5)] 2(3) Some False show ?thesis by simp
    qed
  qed
qed


lemma top_ids_subset: "set (top_ids ns) \<subseteq> set (ids ns)"
  by (induction ns rule: ids.induct) (auto simp: top_ids_def)

lemma sub_ids_subset: "set (sub_ids ns) \<subseteq> set (ids ns)"
  by (induction ns rule: ids.induct) auto

lemma mset_ids_split: "mset (ids ns) = mset (top_ids ns) + mset (sub_ids ns)"
  by (induction ns rule: ids.induct) (auto simp: top_ids_def)

lemma top_not_sub:
  assumes "distinct (ids ns)" and "t \<in> set (top_ids ns)"
  shows "t \<notin> set (sub_ids ns)"
proof -
  have "mset (ids ns) = mset (top_ids ns @ sub_ids ns)" by (simp add: mset_ids_split)
  then have "distinct (top_ids ns @ sub_ids ns)"
    using assms(1) mset_eq_imp_distinct_iff by blast
  with assms(2) show ?thesis by auto
qed

lemma sub_ids_Cons: "sub_ids (n # ns) = ids (children n) @ sub_ids ns"
  by (cases n) simp

lemma list_ex_top_ids: "list_ex (\<lambda>c. nodeId (props c) = t) cs \<longleftrightarrow> t \<in> set (top_ids cs)"
  by (auto simp: list_ex_iff top_ids_def)

lemma findParentNode_None: "t \<notin> set (sub_ids ns) \<Longrightarrow> findParentNode ns t = None"
proof (induction ns t rule: findParentNode.induct)
  case (1 childId)
  then show ?case by simp
next
  case (2 f cs nodes childId)
  then have a: "childId \<notin> set (ids cs)" and b: "childId \<notin> set (sub_ids nodes)" by auto
  from a have "childId \<notin> set (top_ids cs)" "childId \<notin> set (sub_ids cs)"
    using top_ids_subset [of cs] sub_ids_subset [of cs] by auto
  with 2 b show ?case by (simp add: list_ex_top_ids)
qed

lemma top_ids_splice_other:
  "t \<notin> set (top_ids ns) \<Longrightarrow> top_ids (spliceAtTarget t a x ns) = top_ids ns"
  by (induction t a x ns rule: spliceAtTarget.induct) (auto simp: top_ids_def)

lemma top_ids_splice_mem:
  "t \<in> set (top_ids ns) \<Longrightarrow> t \<in> set (top_ids (spliceAtTarget t a x ns))"
  by (induction t a x ns rule: spliceAtTarget.induct) (auto simp: top_ids_def)

lemma findParentNode_splice:
  assumes "levels_ok l ns" and "distinct (ids ns)" and "t \<notin> set (ids [x])"
    and "container_ctx p l ns t = Some (p', l')"
  shows "if t \<in> set (top_ids ns)
         then findParentNode (spliceAtTarget t a x ns) t = None \<and> p' = p \<and> l' = l
         else \<exists>P. findParentNode (spliceAtTarget t a x ns) t = Some P \<and>
                p' = Some (nodeId (props P)) \<and> l' = level (props P) + 1"
  using assms
proof (induction t a x ns arbitrary: p l rule: spliceAtTarget.induct)
  case (1 tid after n)
  then show ?case by simp
next
  case (2 tid after n f cs rest)
  have tx: "tid \<notin> set (ids (children n))" using 2(5) by (simp add: ids_single)
  show ?case
  proof (cases "nodeId f = tid")
    case True
    have "tid \<notin> set (sub_ids (Node f cs # rest))"
      using top_not_sub [OF 2(4), of tid] True by (simp add: top_ids_def)
    then have "tid \<notin> set (sub_ids (spliceAtTarget tid after n (Node f cs # rest)))"
      using True tx by (simp add: sub_ids_Cons)
    then have "findParentNode (spliceAtTarget tid after n (Node f cs # rest)) tid = None"
      by (rule findParentNode_None)
    with True 2(6) show ?thesis by (simp add: top_ids_def)
  next
    case False
    show ?thesis
    proof (cases "findNodeById cs tid")
      case (Some b)
      then have in_cs: "tid \<in> set (ids cs)" using findNodeById_None_iff [of cs tid] by auto
      then have "container_ctx (Some (nodeId f)) (l + 1) cs tid \<noteq> None"
        by (simp add: container_ctx_None_iff)
      with 2(6) False have c: "container_ctx (Some (nodeId f)) (l + 1) cs tid = Some (p', l')"
        by (auto split: option.splits)
      have lv: "levels_ok (l + 1) cs" "level f = l" using 2(3) by auto
      have d: "distinct (ids cs)" using 2(4) by simp
      have "tid \<notin> set (ids rest)" using 2(4) in_cs by auto
      then have nt: "tid \<notin> set (top_ids (Node f cs # rest))"
        using top_ids_subset [of rest] False by (auto simp: top_ids_def)
      note IH = 2(1) [OF False _ lv(1) d 2(5) c]
      show ?thesis
      proof (cases "tid \<in> set (top_ids cs)")
        case True
        then have "list_ex (\<lambda>c. nodeId (props c) = tid) (spliceAtTarget tid after n cs)"
          by (simp add: list_ex_top_ids top_ids_splice_mem)
        moreover from IH True Some have "p' = Some (nodeId f)" "l' = l + 1" by auto
        ultimately show ?thesis using nt False Some lv(2) by simp
      next
        case nc: False
        then have "\<not> list_ex (\<lambda>c. nodeId (props c) = tid) (spliceAtTarget tid after n cs)"
          by (simp add: list_ex_top_ids top_ids_splice_other)
        moreover from IH nc Some obtain P where
          "findParentNode (spliceAtTarget tid after n cs) tid = Some P"
          "p' = Some (nodeId (props P))" "l' = level (props P) + 1" by auto
        ultimately show ?thesis using nt False Some by simp
      qed
    next
      case None
      then have not_cs: "tid \<notin> set (ids cs)" by (simp add: findNodeById_None_iff)
      then have "container_ctx (Some (nodeId f)) (l + 1) cs tid = None"
        by (simp add: container_ctx_None_iff)
      with 2(6) False have c: "container_ctx p l rest tid = Some (p', l')" by simp
      have lv: "levels_ok l rest" using 2(3) by simp
      have d: "distinct (ids rest)" using 2(4) by simp
      note IH = 2(2) [OF False _ lv d 2(5) c]
      have "\<not> list_ex (\<lambda>c. nodeId (props c) = tid) cs"
        using not_cs top_ids_subset [of cs] by (auto simp: list_ex_top_ids)
      moreover have "findParentNode cs tid = None"
        using not_cs sub_ids_subset [of cs] by (auto intro: findParentNode_None)
      moreover have "tid \<in> set (top_ids (Node f cs # rest)) \<longleftrightarrow> tid \<in> set (top_ids rest)"
        using False by (simp add: top_ids_def)
      ultimately show ?thesis using IH None False by (auto split: if_splits)
    qed
  qed
qed


lemma findNodeWithParent_of_find:
  assumes "findNodeById ns i = Some n"
  shows "\<exists>arr. findNodeWithParent ns i = Some (n, arr) \<and> list_ex (\<lambda>m. nodeId (props m) = i) arr"
proof -
  have "i \<in> set (ids ns)" using assms findNodeById_None_iff [of ns i] by auto
  then obtain m arr where f: "findWithParentLoop ([] @ ns) ns i = Some (m, arr)"
    using findWithParentLoop_exists [of i ns ns] by auto
  from findWithParentLoop_Some [OF f] assms show ?thesis
    using f by (auto simp: findNodeWithParent_def list_ex_iff)
qed

lemma moveNode_unchanged:
  assumes "nid = tid \<or> findNodeById ns nid = None \<or> findNodeById ns tid = None"
  shows "moveNode ns nid tid m pos = (Returned False, ns)"
proof -
  have "findNodeWithParent ns i = None" if "findNodeById ns i = None" for i
    using that by (simp add: findNodeWithParent_def findWithParentLoop_None_iff
        findNodeById_None_iff)
  with assms show ?thesis
    by (auto simp: moveNode_def split: option.splits)
qed

lemma delete_target_remains:
  assumes "findNodeById ns nid = Some source" and "findNodeById ns tid = Some target"
    and "nid \<noteq> tid" and "findNodeById (children source) tid = None"
  shows "tid \<notin> set (ids [source])"
    and "\<exists>T1. findNodeById (snd (deleteFromArray nid ns)) tid = Some T1 \<and> props T1 = props target"
proof -
  have "nodeId (props source) = nid" using assms(1) by (rule findNodeById_Some_id)
  with assms(3,4) show a: "tid \<notin> set (ids [source])"
    by (simp add: ids_single findNodeById_None_iff)
  from delete_keeps_target [OF assms(1,2) a]
  show "\<exists>T1. findNodeById (snd (deleteFromArray nid ns)) tid = Some T1 \<and> props T1 = props target" .
qed

lemma ids_decompose:
  "findNodeById ns i = Some n \<Longrightarrow>
   \<exists>post. ids ns = takeWhile (\<lambda>j. j \<noteq> i) (ids ns) @ ids [n] @ post"
proof (induction ns i rule: findNodeById.induct)
  case (1 i)
  then show ?case by simp
next
  case (2 f cs nodes i)
  show ?case
  proof (cases "nodeId f = i")
    case True
    with 2(3) show ?thesis by auto
  next
    case False
    show ?thesis
    proof (cases "findNodeById cs i")
      case None
      then have nin: "i \<notin> set (ids cs)" by (simp add: findNodeById_None_iff)
      from 2(3) False None have "findNodeById nodes i = Some n" by simp
      from 2(2) [OF False None this] obtain post where
        "ids nodes = takeWhile (\<lambda>j. j \<noteq> i) (ids nodes) @ ids [n] @ post" by blast
      moreover have "takeWhile (\<lambda>j. j \<noteq> i) (ids cs @ ids nodes)
                     = ids cs @ takeWhile (\<lambda>j. j \<noteq> i) (ids nodes)"
        using nin by (intro takeWhile_append2) auto
      ultimately have "ids (Node f cs # nodes) =
          takeWhile (\<lambda>j. j \<noteq> i) (ids (Node f cs # nodes)) @ ids [n] @ post"
        using False by simp
      then show ?thesis by blast
    next
      case (Some a)
      with 2(3) False have fn: "findNodeById cs i = Some n" by simp
      then have "i \<in> set (ids cs)" using findNodeById_None_iff [of cs i] by auto
      then have tw: "takeWhile (\<lambda>j. j \<noteq> i) (ids cs @ ids nodes)
                     = takeWhile (\<lambda>j. j \<noteq> i) (ids cs)"
        by (simp add: takeWhile_append1)
      from 2(1) [OF False fn] obtain post where
        "ids cs = takeWhile (\<lambda>j. j \<noteq> i) (ids cs) @ ids [n] @ post" by blast
      then have "ids (Node f cs # nodes) =
          takeWhile (\<lambda>j. j \<noteq> i) (ids (Node f cs # nodes)) @ ids [n] @ (post @ ids nodes)"
        using False tw by simp
      then show ?thesis by blast
    qed
  qed
qed

lemma targetInsideSource_distinct:
  assumes "distinct (ids ns)" and "findNodeById ns nid = Some source"
  shows "targetInsideSource ns nid source tid \<longleftrightarrow> findNodeById (children source) tid \<noteq> None"
proof -
  obtain post where d: "ids ns = takeWhile (\<lambda>j. j \<noteq> nid) (ids ns) @ ids [source] @ post"
    using ids_decompose [OF assms(2)] by blast
  have "distinct (takeWhile (\<lambda>j. j \<noteq> nid) (ids ns) @ ids [source] @ post)"
    using assms(1) d by metis
  then have "set (takeWhile (\<lambda>j. j \<noteq> nid) (ids ns)) \<inter> set (ids [source]) = {}"
    by auto
  then have "tid \<in> set (ids (children source))
             \<Longrightarrow> tid \<notin> set (takeWhile (\<lambda>j. j \<noteq> nid) (ids ns))"
    by (auto simp: ids_single)
  then show ?thesis
    by (auto simp: targetInsideSource_def findNodeById_None_iff)
qed

lemma moveNode_forest:
  assumes "nid \<noteq> tid" and "findNodeById ns nid = Some source"
    and "findNodeById ns tid = Some target" and "distinct (ids ns)"
  shows "snd (moveNode ns nid tid m pos) =
     (if findNodeById (children source) tid \<noteq> None then snd (deleteFromArray nid ns)
      else if m = Child then
        pushChild tid
          (updateNodeLevels (setParentId source (Some tid)) (level (props target) + 1))
          (snd (deleteFromArray nid ns))
      else
        let P = findParentNode
                  (spliceAtTarget tid (pos = After) source (snd (deleteFromArray nid ns))) tid;
            np = map_option (\<lambda>p. nodeId (props p)) P;
            nl = (case P of None \<Rightarrow> 1 | Some p \<Rightarrow> level (props p) + 1)
        in spliceAtTarget tid (pos = After)
             (if parentId (props source) \<noteq> np \<or> level (props source) \<noteq> nl
              then updateNodeLevels (setParentId source np) nl else source)
             (snd (deleteFromArray nid ns)))"
proof -
  define nodes1 where "nodes1 = snd (deleteFromArray nid ns)"
  obtain sp where sp: "findNodeWithParent ns nid = Some (source, sp)"
    "list_ex (\<lambda>m. nodeId (props m) = nid) sp"
    using findNodeWithParent_of_find [OF assms(2)] by auto
  obtain tp where tp: "findNodeWithParent ns tid = Some (target, tp)"
    using findNodeWithParent_of_find [OF assms(3)] by auto
  have tid: "nodeId (props target) = tid" using assms(3) by (rule findNodeById_Some_id)
  note inside = targetInsideSource_distinct [OF assms(4,2), of tid]
  show ?thesis
  proof (cases "findNodeById (children source) tid \<noteq> None")
    case True
    then show ?thesis using assms(1) sp tp inside
      by (auto simp: moveNode_def Let_def)
  next
    case False
    then have nd: "findNodeById (children source) tid = None" by simp
    from delete_target_remains(2) [OF assms(2,3,1) nd] obtain T1 where
      "findNodeById nodes1 tid = Some T1" by (auto simp: nodes1_def)
    from findNodeWithParent_of_find [OF this] obtain arr where
      arr: "findNodeWithParent nodes1 tid = Some (T1, arr)"
        "list_ex (\<lambda>m. nodeId (props m) = tid) arr" by auto
    define P where "P = findParentNode (spliceAtTarget tid (pos = After) source nodes1) tid"
    define np where "np = map_option (\<lambda>p. nodeId (props p)) P"
    define nl where "nl = (case P of None \<Rightarrow> 1 | Some p \<Rightarrow> level (props p) + 1)"
    show ?thesis
      using assms(1) sp tp nd arr tid inside
      by (simp add: moveNode_def Let_def nodes1_def [symmetric] P_def [symmetric]
          np_def [symmetric] nl_def [symmetric])
  qed
qed

lemma valid_forest_iff:
  "valid_forest ns \<longleftrightarrow> levels_ok 1 ns \<and> parents_ok None ns \<and> distinct (ids ns)"
  using distinct_acyclic [of ns] by (auto simp: valid_forest_def)

lemma valid_addSiblingNode:
  assumes "valid_forest ns" and "n \<notin> set (ids ns)"
  shows "valid_forest (snd (addSiblingNode ns x t n))"
proof -
  have "mset (ids (snd (addSibling x t n ns None))) = mset (ids ns) \<or>
        mset (ids (snd (addSibling x t n ns None))) = mset (n # ids ns)"
    by (simp add: addSibling_ids)
  moreover have "distinct (n # ids ns)" using assms by (simp add: valid_forest_iff)
  ultimately have "distinct (ids (snd (addSibling x t n ns None)))"
    using assms(1) mset_eq_imp_distinct_iff unfolding valid_forest_iff by metis
  then show ?thesis
    using assms(1) by (simp add: valid_forest_iff addSiblingNode_def addSibling_levels
        addSibling_parents)
qed

lemma valid_addChildNode:
  assumes "valid_forest ns" and "n \<notin> set (ids ns)"
  shows "valid_forest (snd (addChildNode ns x t n))"
proof (cases "findNodeById ns x")
  case None
  then show ?thesis using assms(1) by (simp add: addChildNode_def)
next
  case (Some target)
  define new where "new = newNode n t (level (props target) + 1) (Some (nodeId (props target)))"
  have x: "nodeId (props target) = x" using Some by (rule findNodeById_Some_id)
  have r: "snd (addChildNode ns x t n) = pushChild x new ns"
    using Some by (simp add: addChildNode_def new_def)
  have "x \<in> set (ids ns)" using Some findNodeById_None_iff [of ns x] by auto
  then have "mset (ids (pushChild x new ns)) = mset (n # ids ns)"
    by (simp add: pushChild_ids new_def ids_newNode)
  moreover have "distinct (n # ids ns)" using assms by (simp add: valid_forest_iff)
  ultimately have d: "distinct (ids (pushChild x new ns))"
    using mset_eq_imp_distinct_iff by metis
  have l: "levels_ok 1 (pushChild x new ns)"
    using assms(1) Some by (auto simp: valid_forest_iff new_def levels_ok_newNode
        intro: pushChild_levels)
  have p: "parents_ok None (pushChild x new ns)"
    using assms(1) x by (auto simp: valid_forest_iff new_def parents_ok_newNode
        intro: pushChild_parents)
  from d l p r show ?thesis by (simp add: valid_forest_iff)
qed

lemma valid_addRootNode:
  assumes "valid_forest ns" and "n \<notin> set (ids ns)"
  shows "valid_forest (snd (addRootNode ns t n))"
  using assms
  by (simp add: valid_forest_iff addRootNode_def levels_ok_append parents_ok_append
      ids_append levels_ok_newNode parents_ok_newNode ids_newNode)

lemma valid_deleteNode:
  "valid_forest ns \<Longrightarrow> valid_forest (snd (deleteNode ns i))"
  by (simp add: valid_forest_iff deleteNode_def deleteFromArray_levels deleteFromArray_parents
      deleteFromArray_distinct)

lemma valid_moveNode:
  assumes "valid_forest ns"
  shows "valid_forest (snd (moveNode ns nid tid m pos))"
proof (cases "nid = tid \<or> findNodeById ns nid = None \<or> findNodeById ns tid = None")
  case True
  then show ?thesis using assms by (simp add: moveNode_unchanged)
next
  case False
  then obtain source target where f: "nid \<noteq> tid" "findNodeById ns nid = Some source"
    "findNodeById ns tid = Some target" by auto
  define nodes1 where "nodes1 = snd (deleteFromArray nid ns)"
  have L: "levels_ok 1 ns" and P: "parents_ok None ns" and D: "distinct (ids ns)"
    using assms by (simp_all add: valid_forest_iff)
  have L1: "levels_ok 1 nodes1" and P1: "parents_ok None nodes1" and D1: "distinct (ids nodes1)"
    using L P D by (simp_all add: nodes1_def deleteFromArray_levels deleteFromArray_parents
        deleteFromArray_distinct)
  have v1: "valid_forest nodes1" using L1 P1 D1 by (simp add: valid_forest_iff)
  have split: "mset (ids ns) = mset (ids nodes1) + mset (ids [source])"
    unfolding nodes1_def using f(2) by (rule mset_ids_delete)
  show ?thesis
  proof (cases "findNodeById (children source) tid \<noteq> None")
    case True
    then show ?thesis using v1 by (simp add: moveNode_forest [OF f D] nodes1_def)
  next
    case False
    then have nd: "findNodeById (children source) tid = None" by simp
    note rem = delete_target_remains [OF f(2,3,1) nd]
    from rem(2) obtain T1 where T1: "findNodeById nodes1 tid = Some T1"
      "props T1 = props target" by (auto simp: nodes1_def)
    have tin1: "tid \<in> set (ids nodes1)" using T1(1) findNodeById_None_iff [of nodes1 tid] by auto
    have sub_p: "parents_ok (parentId (props source)) [source]"
      using P f(2) by (rule found_parents_ok)
    have sub_l: "levels_ok (level (props source)) [source]"
      using L f(2) by (rule found_levels_ok)
    have distinct_with: "distinct (ids R)"
      if "mset (ids R) = mset (ids nodes1) + mset (ids [source])" for R
    proof -
      from that split have "mset (ids R) = mset (ids ns)" by simp
      then show ?thesis using D mset_eq_imp_distinct_iff by blast
    qed
    show ?thesis
    proof (cases "m = Child")
      case True
      define moved where
        "moved = updateNodeLevels (setParentId source (Some tid)) (level (props target) + 1)"
      have r: "snd (moveNode ns nid tid m pos) = pushChild tid moved nodes1"
        using nd True by (simp add: moveNode_forest [OF f D] nodes1_def moved_def)
      have mi: "ids [moved] = ids [source]"
        by (simp add: moved_def ids_updateNodeLevels ids_setParentId)
      have "levels_ok (level (props T1) + 1) [moved]"
        by (simp add: T1(2) moved_def updateNodeLevels_levels)
      with L1 T1(1) have l: "levels_ok 1 (pushChild tid moved nodes1)"
        by (rule pushChild_levels)
      have "parents_ok (Some tid) [moved]"
        using sub_p by (simp add: moved_def updateNodeLevels_parents setParentId_parents)
      with P1 have p: "parents_ok None (pushChild tid moved nodes1)"
        by (rule pushChild_parents)
      have "mset (ids (pushChild tid moved nodes1)) = mset (ids nodes1) + mset (ids [source])"
        using tin1 by (simp add: pushChild_ids mi)
      then have "distinct (ids (pushChild tid moved nodes1))" by (rule distinct_with)
      with l p r show ?thesis by (simp add: valid_forest_iff)
    next
      case False
      define P' where "P' = findParentNode (spliceAtTarget tid (pos = After) source nodes1) tid"
      define np where "np = map_option (\<lambda>p. nodeId (props p)) P'"
      define nl where "nl = (case P' of None \<Rightarrow> 1 | Some p \<Rightarrow> level (props p) + 1)"
      define moved where "moved =
        (if parentId (props source) \<noteq> np \<or> level (props source) \<noteq> nl
         then updateNodeLevels (setParentId source np) nl else source)"
      have r: "snd (moveNode ns nid tid m pos) = spliceAtTarget tid (pos = After) moved nodes1"
        using nd False
        by (simp add: moveNode_forest [OF f D] nodes1_def Let_def P'_def np_def nl_def moved_def)
      obtain p' l' where c: "container_ctx None 1 nodes1 tid = Some (p', l')"
        using tin1 container_ctx_None_iff [of None 1 nodes1 tid]
        by (cases "container_ctx None 1 nodes1 tid") auto
      from findParentNode_splice [OF L1 D1 rem(1) c, of "pos = After"]
      have ctx: "np = p'" "nl = l'"
        by (auto simp: np_def nl_def P'_def split: if_splits)
      have mi: "ids [moved] = ids [source]"
        by (simp add: moved_def ids_updateNodeLevels ids_setParentId)
      have mp: "parents_ok p' [moved]"
        using sub_p ctx by (auto simp: moved_def updateNodeLevels_parents setParentId_parents)
      have ml: "levels_ok l' [moved]"
        using sub_l ctx by (auto simp: moved_def updateNodeLevels_levels)
      have l: "levels_ok 1 (spliceAtTarget tid (pos = After) moved nodes1)"
        using L1 c ml by (rule splice_levels)
      have p: "parents_ok None (spliceAtTarget tid (pos = After) moved nodes1)"
        using P1 c mp by (rule splice_parents)
      have "mset (ids (spliceAtTarget tid (pos = After) moved nodes1))
            = mset (ids nodes1) + mset (ids [source])"
        using tin1 by (simp add: splice_ids mi)
      then have "distinct (ids (spliceAtTarget tid (pos = After) moved nodes1))"
        by (rule distinct_with)
      with l p r show ?thesis by (simp add: valid_forest_iff)
    qed
  qed
qed

lemma valid_apply_op:
  "valid_forest ns \<Longrightarrow> new_id_fresh ns operation \<Longrightarrow> valid_forest (apply_op ns operation)"
  by (cases operation)
     (simp_all add: valid_addSiblingNode valid_addChildNode valid_addRootNode valid_deleteNode
        valid_moveNode)

lemma valid_run:
  "valid_forest ns \<Longrightarrow> fresh_ids ns ops \<Longrightarrow> valid_forest (foldl apply_op ns (take k ops))"
proof (induction ops arbitrary: ns k)
  case Nil
  then show ?case by simp
next
  case (Cons operation ops)
  show ?case
  proof (cases k)
    case 0
    with Cons show ?thesis by simp
  next
    case (Suc j)
    from Cons.prems have "valid_forest (apply_op ns operation)"
      "fresh_ids (apply_op ns operation) ops" by (simp_all add: valid_apply_op)
    from Cons.IH [OF this, of j] Suc show ?thesis by simp
  qed
qed

text \<open>
  Claim C2. Starting from a forest that satisfies the invariants, and with every id that
  \<open>generateId\<close> hands to an insert new to the forest at that moment, the forest after each
  operation of any sequence of inserts (sibling, child, root), deletes and moves satisfies
  them again: every root has level 1 and every child its parent's level plus 1, every
  \<open>parentId\<close> is the id of the node that holds the node (null for roots), no id occurs
  twice, and no node's id occurs among its own descendants.
\<close>

theorem invariants_preserved:
  assumes "valid_forest nodes" and "fresh_ids nodes ops" and "k \<le> length ops"
  shows "levels_ok 1 (foldl apply_op nodes (take k ops)) \<and>
         parents_ok None (foldl apply_op nodes (take k ops)) \<and>
         distinct (ids (foldl apply_op nodes (take k ops))) \<and>
         acyclic_ids (foldl apply_op nodes (take k ops))"
  using valid_run [OF assms(1,2), of k] by (simp add: valid_forest_def)

theorem invariants_preserved_witness:
  "levels_ok 1 (foldl apply_op example_forest
     [InsertRoot ''t'' ''N'', Move ''B'' ''D'' Child Append, Delete ''C'']) \<and>
   parents_ok None (foldl apply_op example_forest
     [InsertRoot ''t'' ''N'', Move ''B'' ''D'' Child Append, Delete ''C'']) \<and>
   distinct (ids (foldl apply_op example_forest
     [InsertRoot ''t'' ''N'', Move ''B'' ''D'' Child Append, Delete ''C''])) \<and>
   acyclic_ids (foldl apply_op example_forest
     [InsertRoot ''t'' ''N'', Move ''B'' ''D'' Child Append, Delete ''C''])"
proof -
  let ?ops = "[InsertRoot ''t'' ''N'', Move ''B'' ''D'' Child Append, Delete ''C'']"
  have v: "valid_forest example_forest"
    by (simp add: valid_forest_def example_defs)
  have f: "fresh_ids example_forest ?ops"
    by (simp add: example_defs)
  have k: "3 \<le> length ?ops" by simp
  from invariants_preserved [OF v f k] show ?thesis by simp
qed

subsection \<open>\<open>parse\<close> and \<open>serialize\<close>\<close>

lemma parents_ok_single:
  "parents_ok p [n] \<longleftrightarrow>
     parentId (props n) = p \<and> parents_ok (Some (nodeId (props n))) (children n)"
  by (cases n) simp

lemma levels_inc_single:
  "levels_inc l [n] \<longleftrightarrow> l < level (props n) \<and> levels_inc (level (props n)) (children n)"
  by (cases n) simp

lemma levels_inc_append: "levels_inc l (xs @ ys) \<longleftrightarrow> levels_inc l xs \<and> levels_inc l ys"
  by (induction l xs rule: levels_inc.induct) auto

lemma parents_ok_snoc:
  "ns \<noteq> [] \<Longrightarrow> parents_ok p ns \<longleftrightarrow> parents_ok p (butlast ns) \<and> parents_ok p [last ns]"
  using parents_ok_append [of p "butlast ns" "[last ns]"] by simp

lemma levels_inc_snoc:
  "ns \<noteq> [] \<Longrightarrow> levels_inc l ns \<longleftrightarrow> levels_inc l (butlast ns) \<and> levels_inc l [last ns]"
  using levels_inc_append [of l "butlast ns" "[last ns]"] by simp

lemma pushAtDepth_0: "pushAtDepth 0 n ns = ns @ [n]"
  by (simp add: pushAtDepth_def)

lemma pushAtDepth_Suc:
  "pushAtDepth (Suc d) n ns =
     (if ns = [] then []
      else butlast ns @ [Node (props (last ns)) (pushAtDepth d n (children (last ns)))])"
  by (cases d) (simp_all add: pushAtDepth_def)

lemma push_parents:
  "parents_ok p ns \<Longrightarrow> spine_match bs ns \<Longrightarrow>
   parents_ok (if bs = [] then p else Some (fst (last bs))) [n]
   \<Longrightarrow> parents_ok p (pushAtDepth (length bs) n ns)"
proof (induction bs arbitrary: ns p)
  case Nil
  then show ?case by (simp add: pushAtDepth_0 parents_ok_append)
next
  case (Cons b bs)
  obtain i l where b: "b = (i, l)" by (cases b)
  from Cons.prems(2) b have ne: "ns \<noteq> []" and i: "nodeId (props (last ns)) = i"
    and sm: "spine_match bs (children (last ns))" by auto
  from Cons.prems(1) ne have pb: "parents_ok p (butlast ns)"
    and pl: "parents_ok p [last ns]" using parents_ok_snoc [of ns p] by simp_all
  from pl i have pp: "parentId (props (last ns)) = p"
    and pc: "parents_ok (Some i) (children (last ns))" by (simp_all add: parents_ok_single)
  have "parents_ok (if bs = [] then Some i else Some (fst (last bs))) [n]"
    using Cons.prems(3) b by (auto split: if_splits)
  from Cons.IH [OF pc sm this]
  have "parents_ok (Some i) (pushAtDepth (length bs) n (children (last ns)))" .
  then show ?case
    using ne pb pp i by (simp add: pushAtDepth_Suc parents_ok_append)
qed

lemma push_levels:
  "levels_inc l0 ns \<Longrightarrow> spine_match bs ns \<Longrightarrow>
   levels_inc (if bs = [] then l0 else snd (last bs)) [n]
   \<Longrightarrow> levels_inc l0 (pushAtDepth (length bs) n ns)"
proof (induction bs arbitrary: ns l0)
  case Nil
  then show ?case by (simp add: pushAtDepth_0 levels_inc_append)
next
  case (Cons b bs)
  obtain i l where b: "b = (i, l)" by (cases b)
  from Cons.prems(2) b have ne: "ns \<noteq> []" and l: "level (props (last ns)) = l"
    and sm: "spine_match bs (children (last ns))" by auto
  from Cons.prems(1) ne have pb: "levels_inc l0 (butlast ns)"
    and pl: "levels_inc l0 [last ns]" using levels_inc_snoc [of ns l0] by simp_all
  from pl l have pp: "l0 < l"
    and pc: "levels_inc l (children (last ns))" by (simp_all add: levels_inc_single)
  have "levels_inc (if bs = [] then l else snd (last bs)) [n]"
    using Cons.prems(3) b by (auto split: if_splits)
  from Cons.IH [OF pc sm this]
  have "levels_inc l (pushAtDepth (length bs) n (children (last ns)))" .
  then show ?case
    using ne pb pp l by (simp add: pushAtDepth_Suc levels_inc_append)
qed

lemma push_spine:
  "spine_match bs ns \<Longrightarrow>
   spine_match (bs @ [(nodeId (props n), level (props n))]) (pushAtDepth (length bs) n ns)"
proof (induction bs arbitrary: ns)
  case Nil
  then show ?case by (simp add: pushAtDepth_0)
next
  case (Cons b bs)
  obtain i l where b: "b = (i, l)" by (cases b)
  with Cons show ?case by (auto simp: pushAtDepth_Suc)
qed

lemma spine_match_prefix: "spine_match (xs @ ys) ns \<Longrightarrow> spine_match xs ns"
  by (induction xs ns rule: spine_match.induct) auto

lemma keeps_setDescription: "keeps_structure (setDescription d)"
  by (simp add: keeps_structure_def setDescription_def)

lemma update_parents:
  "keeps_structure g \<Longrightarrow> parents_ok p ns \<Longrightarrow> parents_ok p (updateAtDepth d g ns)"
proof (induction d arbitrary: ns p)
  case 0
  then show ?case by simp
next
  case (Suc d)
  show ?case
  proof (cases "ns = []")
    case True
    then show ?thesis by simp
  next
    case False
    with Suc.prems(2) have pb: "parents_ok p (butlast ns)"
      and pl: "parents_ok p [last ns]" using parents_ok_snoc [of ns p] by simp_all
    from pl have pc: "parents_ok (Some (nodeId (props (last ns)))) (children (last ns))"
      by (simp add: parents_ok_single)
    from Suc.IH [OF Suc.prems(1) pc]
    have "parents_ok (Some (nodeId (props (last ns)))) (updateAtDepth d g (children (last ns)))" .
    then show ?thesis
      using False pb pl Suc.prems(1)
      by (auto simp: parents_ok_append parents_ok_single keeps_structure_def)
  qed
qed

lemma update_levels:
  "keeps_structure g \<Longrightarrow> levels_inc l ns \<Longrightarrow> levels_inc l (updateAtDepth d g ns)"
proof (induction d arbitrary: ns l)
  case 0
  then show ?case by simp
next
  case (Suc d)
  show ?case
  proof (cases "ns = []")
    case True
    then show ?thesis by simp
  next
    case False
    with Suc.prems(2) have pb: "levels_inc l (butlast ns)"
      and pl: "levels_inc l [last ns]" using levels_inc_snoc [of ns l] by simp_all
    from pl have pc: "levels_inc (level (props (last ns))) (children (last ns))"
      by (simp add: levels_inc_single)
    from Suc.IH [OF Suc.prems(1) pc]
    have "levels_inc (level (props (last ns))) (updateAtDepth d g (children (last ns)))" .
    then show ?thesis
      using False pb pl Suc.prems(1)
      by (auto simp: levels_inc_append levels_inc_single keeps_structure_def)
  qed
qed

lemma update_spine:
  "keeps_structure g \<Longrightarrow> spine_match bs ns \<Longrightarrow> spine_match bs (updateAtDepth d g ns)"
proof (induction d arbitrary: ns bs)
  case 0
  then show ?case by simp
next
  case (Suc d)
  show ?case
  proof (cases bs)
    case Nil
    then show ?thesis by simp
  next
    case (Cons b bs')
    obtain i l where b: "b = (i, l)" by (cases b)
    from Suc.prems(2) Cons b have ne: "ns \<noteq> []" and sm: "spine_match bs' (children (last ns))"
      and il: "nodeId (props (last ns)) = i" "level (props (last ns)) = l" by auto
    from Suc.IH [OF Suc.prems(1) sm]
    have "spine_match bs' (updateAtDepth d g (children (last ns)))" .
    then show ?thesis
      using ne sm il Cons b Suc.prems(1) by (auto simp: keeps_structure_def)
  qed
qed

lemma popStack_prefix: "\<exists>zs. bs = popStack lvl bs @ zs"
proof -
  have "rev bs = takeWhile (\<lambda>e. lvl \<le> snd e) (rev bs) @ dropWhile (\<lambda>e. lvl \<le> snd e) (rev bs)"
    by simp
  then have "bs = rev (dropWhile (\<lambda>e. lvl \<le> snd e) (rev bs))
                  @ rev (takeWhile (\<lambda>e. lvl \<le> snd e) (rev bs))"
    by (metis rev_append rev_rev_ident)
  then show ?thesis by (auto simp: popStack_def)
qed

lemma popStack_top: "popStack lvl bs \<noteq> [] \<Longrightarrow> snd (last (popStack lvl bs)) < lvl"
proof -
  assume ne: "popStack lvl bs \<noteq> []"
  then have d: "dropWhile (\<lambda>e. lvl \<le> snd e) (rev bs) \<noteq> []" by (simp add: popStack_def)
  then have "\<not> lvl \<le> snd (hd (dropWhile (\<lambda>e. lvl \<le> snd e) (rev bs)))"
    by (rule hd_dropWhile)
  moreover have "last (popStack lvl bs) = hd (dropWhile (\<lambda>e. lvl \<le> snd e) (rev bs))"
    using d by (simp add: popStack_def last_rev)
  ultimately show ?thesis by simp
qed

lemma headingMatch_level: "headingMatch line = Some (k, g) \<Longrightarrow> 1 \<le> k \<and> k \<le> 6"
  by (auto simp: headingMatch_def Let_def split: if_splits)

lemma saveDescription_inv:
  "parse_inv st \<Longrightarrow>
   parents_ok None (saveDescription st) \<and> levels_inc 0 (saveDescription st) \<and>
   spine_match (st_stack st) (saveDescription st)"
  by (simp add: parse_inv_def saveDescription_def update_parents update_levels update_spine
      keeps_setDescription)

lemma parseLine_inv: "parse_inv st \<Longrightarrow> parse_inv (parseLine gen st line)"
proof (cases "headingMatch line")
  case None
  assume "parse_inv st"
  with None show ?thesis by (simp add: parseLine_def parse_inv_def)
next
  case (Some m)
  assume inv: "parse_inv st"
  obtain lvl g where m: "m = (lvl, g)" by (cases m)
  have lv: "1 \<le> lvl" using Some m headingMatch_level by blast
  define nodes1 where "nodes1 = saveDescription st"
  define stack1 where "stack1 = popStack lvl (st_stack st)"
  define n where "n = Node \<lparr>nodeId = gen (st_count st), title = trim g, description = None,
      level = lvl, collapsed = False,
      parentId = (if stack1 = [] then None else Some (fst (last stack1)))\<rparr> []"
  from saveDescription_inv [OF inv]
  have p1: "parents_ok None nodes1" and l1: "levels_inc 0 nodes1"
    and s0: "spine_match (st_stack st) nodes1" by (simp_all add: nodes1_def)
  obtain zs where "st_stack st = stack1 @ zs"
    using popStack_prefix [of "st_stack st" lvl] by (auto simp: stack1_def)
  with s0 have s1: "spine_match stack1 nodes1" using spine_match_prefix by metis
  have top: "stack1 \<noteq> [] \<Longrightarrow> snd (last stack1) < lvl"
    unfolding stack1_def by (rule popStack_top)
  have pn: "parents_ok (if stack1 = [] then None else Some (fst (last stack1))) [n]"
    by (simp add: n_def)
  have ln: "levels_inc (if stack1 = [] then 0 else snd (last stack1)) [n]"
    using top lv by (simp add: n_def)
  have r: "parseLine gen st line =
      \<lparr>st_nodes = pushAtDepth (length stack1) n nodes1,
       st_stack = stack1 @ [(nodeId (props n), level (props n))],
       st_current = True,
       st_desc = (if st_current st \<and> st_desc st \<noteq> [] then [] else st_desc st),
       st_count = st_count st + 1\<rparr>"
    using Some m by (simp add: parseLine_def Let_def nodes1_def stack1_def n_def)
  show ?thesis
    unfolding r parse_inv_def
    using push_parents [OF p1 s1 pn] push_levels [OF l1 s1 ln] push_spine [OF s1, of n]
    by simp
qed

lemma foldl_parseLine_inv: "parse_inv st \<Longrightarrow> parse_inv (foldl (parseLine gen) st ls)"
  by (induction ls arbitrary: st) (simp_all add: parseLine_inv)

lemma split_nl_line: "CHR 0x0A \<notin> set l \<Longrightarrow> split_nl l = [l]"
  by (induction l) auto

lemma split_nl_append:
  "CHR 0x0A \<notin> set l \<Longrightarrow> split_nl (l @ CHR 0x0A # r) = l # split_nl r"
  by (induction l) auto

lemma split_join:
  "ls \<noteq> [] \<Longrightarrow> list_all (\<lambda>l. CHR 0x0A \<notin> set l) ls \<Longrightarrow> split_nl (join_nl ls) = ls"
  by (induction ls rule: join_nl.induct) (auto simp: split_nl_line split_nl_append)

lemma hline_no_nl: "heading_ok h \<Longrightarrow> CHR 0x0A \<notin> set (hline h)"
  by (auto simp: heading_ok_def hline_def list_all_iff isLineTerminator_def)

lemma doc_lines_no_nl:
  "list_all heading_ok hs \<Longrightarrow> list_all (\<lambda>l. CHR 0x0A \<notin> set l) (doc_lines hs)"
  by (induction hs rule: doc_lines.induct) (auto simp: hline_no_nl)

lemma doc_lines_ne: "doc_lines hs \<noteq> []"
  by (induction hs rule: doc_lines.induct) auto

lemma trim_clean:
  "t \<noteq> [] \<Longrightarrow> \<not> isSpace (hd t) \<Longrightarrow> \<not> isSpace (last t) \<Longrightarrow> trim t = t"
proof -
  assume a: "t \<noteq> []" "\<not> isSpace (hd t)" "\<not> isSpace (last t)"
  then have "dropWhile isSpace t = t" by (cases t) auto
  moreover have "dropWhile isSpace (rev t) = rev t"
    using a by (cases "rev t") (auto simp: last_rev [symmetric] hd_rev)
  ultimately show ?thesis by (simp add: trim_def)
qed

lemma trim_clean_nl:
  "t \<noteq> [] \<Longrightarrow> \<not> isSpace (hd t) \<Longrightarrow> \<not> isSpace (last t) \<Longrightarrow> trim (t @ [CHR 0x0A]) = t"
proof -
  assume a: "t \<noteq> []" "\<not> isSpace (hd t)" "\<not> isSpace (last t)"
  then have "dropWhile isSpace (t @ [CHR 0x0A]) = t @ [CHR 0x0A]" by (cases t) auto
  moreover have "dropWhile isSpace (rev t) = rev t"
    using a by (cases "rev t") (auto simp: last_rev [symmetric] hd_rev)
  moreover have "isSpace (CHR 0x0A)" by (simp add: isSpace_def)
  ultimately show ?thesis by (simp add: trim_def)
qed

lemma headingMatch_hline:
  assumes "heading_ok h"
  shows "headingMatch (hline h) = Some (fst h, snd h)"
proof -
  obtain k t where h: "h = (k, t)" by (cases h)
  from assms h have ok: "1 \<le> k" "k \<le> 6" "t \<noteq> []" "\<not> isSpace (hd t)"
    "list_all (\<lambda>c. \<not> isLineTerminator c) t" by (simp_all add: heading_ok_def)
  have sp: "isSpace CHR '' ''" by (simp add: isSpace_def)
  have tw: "takeWhile (\<lambda>c. c = CHR ''#'') (replicate k CHR ''#'' @ CHR '' '' # t)
            = replicate k CHR ''#''"
    by (simp add: takeWhile_append2 [where ys = "CHR '' '' # t"] takeWhile_append)
  have w: "takeWhile isSpace (CHR '' '' # t) = [CHR '' '']"
    using ok(3,4) sp by (cases t) auto
  have b: "dropWhile isSpace (CHR '' '' # t) = t"
    using ok(3,4) sp by (cases t) auto
  show ?thesis
    using ok tw w b by (simp add: headingMatch_def hline_def h Let_def)
qed

lemma headingMatch_blank: "headingMatch [] = None"
  by (simp add: headingMatch_def)

lemma parseLine_blank: "parseLine gen st [] = st"
  by (simp add: parseLine_def headingMatch_blank trim_def)

lemma foldl_blank: "foldl (parseLine gen) st (replicate a []) = st"
  by (induction a) (simp_all add: parseLine_blank)

lemma serializeNodes_append:
  "serializeNodes (xs @ ys) = serializeNodes xs @ serializeNodes ys"
  by (induction xs rule: serializeNodes.induct) auto

lemma serializeNodes_single:
  "serializeNodes [n] = serializeNodes [Node (props n) []] @ serializeNodes (children n)"
  by (cases n) simp

lemma push_serialize:
  "spine_match bs ns \<Longrightarrow>
   serializeNodes (pushAtDepth (length bs) n ns) = serializeNodes ns @ serializeNodes [n]"
proof (induction bs arbitrary: ns)
  case Nil
  then show ?case by (simp add: pushAtDepth_0 serializeNodes_append)
next
  case (Cons b bs)
  obtain i l where b: "b = (i, l)" by (cases b)
  from Cons.prems b have ne: "ns \<noteq> []" and sm: "spine_match bs (children (last ns))" by auto
  have "serializeNodes ns = serializeNodes (butlast ns) @ serializeNodes [last ns]"
    using ne serializeNodes_append [of "butlast ns" "[last ns]"] by simp
  also have "\<dots> = serializeNodes (butlast ns) @ serializeNodes [Node (props (last ns)) []]
                @ serializeNodes (children (last ns))"
    using serializeNodes_single [of "last ns"] by simp
  finally have a: "serializeNodes ns = serializeNodes (butlast ns)
      @ serializeNodes [Node (props (last ns)) []] @ serializeNodes (children (last ns))" .
  have "serializeNodes (pushAtDepth (length (b # bs)) n ns) =
        serializeNodes (butlast ns) @ serializeNodes [Node (props (last ns)) []]
        @ serializeNodes (pushAtDepth (length bs) n (children (last ns)))"
    using ne serializeNodes_single [of "Node (props (last ns))
        (pushAtDepth (length bs) n (children (last ns)))"]
    by (simp add: pushAtDepth_Suc serializeNodes_append)
  with Cons.IH [OF sm] a show ?case by simp
qed

lemma parseLine_heading:
  assumes "parse_inv st" and "st_desc st = []" and "heading_ok h"
  shows "parse_inv (parseLine gen st (hline h)) \<and> st_desc (parseLine gen st (hline h)) = [] \<and>
         serializeNodes (st_nodes (parseLine gen st (hline h)))
           = serializeNodes (st_nodes st) @ [hline h, []]"
proof -
  define stack1 where "stack1 = popStack (fst h) (st_stack st)"
  define n where "n = Node \<lparr>nodeId = gen (st_count st), title = snd h, description = None,
      level = fst h, collapsed = False,
      parentId = (if stack1 = [] then None else Some (fst (last stack1)))\<rparr> []"
  have t: "trim (snd h) = snd h"
    using assms(3) by (simp add: heading_ok_def trim_clean)
  have r: "parseLine gen st (hline h) =
      \<lparr>st_nodes = pushAtDepth (length stack1) n (st_nodes st),
       st_stack = stack1 @ [(gen (st_count st), fst h)],
       st_current = True, st_desc = [], st_count = st_count st + 1\<rparr>"
    using assms(2) t
    by (simp add: parseLine_def headingMatch_hline [OF assms(3)] Let_def saveDescription_def
        stack1_def n_def case_prod_beta)
  obtain zs where "st_stack st = stack1 @ zs"
    using popStack_prefix [of "st_stack st" "fst h"] by (auto simp: stack1_def)
  with assms(1) have s1: "spine_match stack1 (st_nodes st)"
    using spine_match_prefix unfolding parse_inv_def by metis
  have "serializeNodes [n] = [hline h, []]" by (simp add: n_def hline_def)
  with push_serialize [OF s1, of n] r parseLine_inv [OF assms(1), of gen "hline h"]
  show ?thesis by simp
qed

lemma foldl_doc_lines:
  "parse_inv st \<Longrightarrow> st_desc st = [] \<Longrightarrow> list_all heading_ok hs \<Longrightarrow>
   st_desc (foldl (parseLine gen) st (doc_lines hs)) = [] \<and>
   serializeNodes (st_nodes (foldl (parseLine gen) st (doc_lines hs)))
     = serializeNodes (st_nodes st) @ heading_lines hs"
proof (induction hs arbitrary: st rule: doc_lines.induct)
  case 1
  then show ?case by (simp add: parseLine_blank heading_lines_def)
next
  case (2 h)
  then show ?case using parseLine_heading [of st h gen] by (simp add: heading_lines_def)
next
  case (3 h h' hs)
  from "3.prems" have ok: "heading_ok h" "list_all heading_ok (h' # hs)" by simp_all
  note st1 = parseLine_heading [OF "3.prems"(1,2) ok(1), of gen]
  from "3.IH" [of "parseLine gen st (hline h)"] st1 ok(2)
  show ?case by (simp add: parseLine_blank heading_lines_def)
qed

lemma join_nl_Cons: "ls \<noteq> [] \<Longrightarrow> join_nl (l # ls) = l @ CHR 0x0A # join_nl ls"
  by (cases ls) simp_all

lemma heading_lines_Cons: "heading_lines (h # hs) = hline h # [] # heading_lines hs"
  by (simp add: heading_lines_def)

lemma join_heading_lines:
  "hs \<noteq> [] \<Longrightarrow> join_nl (heading_lines hs) = join_nl (doc_lines hs) @ [CHR 0x0A]"
proof (induction hs rule: doc_lines.induct)
  case 1
  then show ?case by simp
next
  case (2 h)
  then show ?case by (simp add: heading_lines_def)
next
  case (3 h h' hs)
  have ne: "heading_lines (h' # hs) \<noteq> []" by (simp add: heading_lines_def)
  have "join_nl (heading_lines (h # h' # hs))
        = hline h @ CHR 0x0A # CHR 0x0A # join_nl (heading_lines (h' # hs))"
    using ne by (simp add: heading_lines_Cons [of h] join_nl_Cons)
  also have "\<dots> = hline h @ CHR 0x0A # CHR 0x0A # join_nl (doc_lines (h' # hs)) @ [CHR 0x0A]"
    using 3 by simp
  also have "\<dots> = join_nl (doc_lines (h # h' # hs)) @ [CHR 0x0A]"
    using doc_lines_ne [of "h' # hs"] by (simp add: join_nl_Cons)
  finally show ?case .
qed

lemma doc_hd_last:
  "hs \<noteq> [] \<Longrightarrow> list_all heading_ok hs \<Longrightarrow>
   join_nl (doc_lines hs) \<noteq> [] \<and> \<not> isSpace (hd (join_nl (doc_lines hs))) \<and>
   \<not> isSpace (last (join_nl (doc_lines hs)))"
proof (induction hs rule: doc_lines.induct)
  case 1
  then show ?case by simp
next
  case (2 h)
  then have "1 \<le> fst h" "snd h \<noteq> []" "\<not> isSpace (last (snd h))"
    by (simp_all add: heading_ok_def)
  then show ?case
    by (cases "fst h") (auto simp: hline_def isSpace_def)
next
  case (3 h h' hs)
  then have "1 \<le> fst h" by (simp add: heading_ok_def)
  then have "hline h \<noteq> [] \<and> \<not> isSpace (hd (hline h))"
    by (cases "fst h") (auto simp: hline_def isSpace_def)
  moreover from 3 have "join_nl (doc_lines (h' # hs)) \<noteq> []"
    "\<not> isSpace (last (join_nl (doc_lines (h' # hs))))" by simp_all
  ultimately show ?case by (cases hs) auto
qed

lemma parse_inv_result:
  "parents_ok None (parse gen markdown) \<and> levels_inc 0 (parse gen markdown)"
proof -
  have "parse_inv \<lparr>st_nodes = [], st_stack = [], st_current = False, st_desc = [], st_count = 0\<rparr>"
    by (simp add: parse_inv_def)
  then have "parse_inv (foldl (parseLine gen)
      \<lparr>st_nodes = [], st_stack = [], st_current = False, st_desc = [], st_count = 0\<rparr>
      (split_nl markdown))"
    by (rule foldl_parseLine_inv)
  from saveDescription_inv [OF this] show ?thesis by (simp add: parse_def)
qed

lemma flat_append: "flat (xs @ ys) = flat xs @ flat ys"
  by (induction xs rule: flat.induct) auto

lemma flat_single:
  "flat [n] = (nodeId (props n), level (props n), parentId (props n)) # flat (children n)"
  by (cases n) simp

lemma flat_snoc: "ns \<noteq> [] \<Longrightarrow> flat ns = flat (butlast ns) @ flat [last ns]"
  using flat_append [of "butlast ns" "[last ns]"] by simp

lemma push_flat:
  "spine_match bs ns \<Longrightarrow> flat (pushAtDepth (length bs) n ns) = flat ns @ flat [n]"
proof (induction bs arbitrary: ns)
  case Nil
  then show ?case by (simp add: pushAtDepth_0 flat_append)
next
  case (Cons b bs)
  obtain i l where b: "b = (i, l)" by (cases b)
  from Cons.prems b have ne: "ns \<noteq> []" and sm: "spine_match bs (children (last ns))" by auto
  have "flat (pushAtDepth (length (b # bs)) n ns) =
        flat (butlast ns) @ flat [Node (props (last ns))
          (pushAtDepth (length bs) n (children (last ns)))]"
    using ne by (simp add: pushAtDepth_Suc flat_append)
  also have "\<dots> = flat (butlast ns) @ flat [last ns] @ flat [n]"
    using Cons.IH [OF sm] by (simp add: flat_single)
  finally show ?case using flat_snoc [OF ne] by simp
qed

lemma update_flat:
  "keeps_structure g \<Longrightarrow> flat (updateAtDepth d g ns) = flat ns"
proof (induction d arbitrary: ns)
  case 0
  then show ?case by simp
next
  case (Suc d)
  show ?case
  proof (cases "ns = []")
    case True
    then show ?thesis by simp
  next
    case False
    have "flat (updateAtDepth (Suc d) g ns) = flat (butlast ns) @ flat [last ns]"
      using False Suc.IH [OF Suc.prems, of "children (last ns)"] Suc.prems
      by (auto simp: flat_append flat_single keeps_structure_def)
    then show ?thesis using flat_snoc [OF False] by simp
  qed
qed

lemma stack_of_append: "stack_of (xs @ ys) st = stack_of ys (stack_of xs st)"
  by (induction xs st rule: stack_of.induct) auto

lemma attach_ok_append:
  "attach_ok prev (xs @ ys) \<longleftrightarrow> attach_ok prev xs \<and> attach_ok (prev @ xs) ys"
  by (induction prev xs rule: attach_ok.induct) auto

lemma popStack_popStack: "l \<le> m \<Longrightarrow> popStack l (popStack m st) = popStack l st"
proof -
  assume lm: "l \<le> m"
  have "dropWhile (\<lambda>e. l \<le> snd e) (dropWhile (\<lambda>e. m \<le> snd e) xs)
        = dropWhile (\<lambda>e. l \<le> snd e) xs" for xs :: "(string \<times> nat) list"
    using lm by (induction xs) auto
  then show ?thesis by (simp add: popStack_def)
qed

lemma popStack_snoc:
  "popStack l (st @ [(i, m)]) = (if l \<le> m then popStack l st else st @ [(i, m)])"
  by (simp add: popStack_def)

lemma stack_top_nearest:
  "stack_top (popStack l (stack_of prev [])) = nearest_smaller prev l"
proof (induction prev rule: rev_induct)
  case Nil
  then show ?case by (simp add: stack_top_def popStack_def nearest_smaller_def)
next
  case (snoc e prev)
  obtain i m p where e: "e = (i, m, p)" by (cases e)
  have s: "stack_of (prev @ [e]) [] = popStack m (stack_of prev []) @ [(i, m)]"
    by (simp add: stack_of_append e)
  show ?case
  proof (cases "l \<le> m")
    case True
    then have "popStack l (stack_of (prev @ [e]) []) = popStack l (stack_of prev [])"
      by (simp add: s popStack_snoc popStack_popStack)
    moreover have "nearest_smaller (prev @ [e]) l = nearest_smaller prev l"
      using True by (simp add: nearest_smaller_def e)
    ultimately show ?thesis using snoc by simp
  next
    case False
    then have "popStack l (stack_of (prev @ [e]) []) = popStack m (stack_of prev []) @ [(i, m)]"
      by (simp add: s popStack_snoc)
    moreover have "nearest_smaller (prev @ [e]) l = Some i"
      using False by (simp add: nearest_smaller_def e)
    ultimately show ?thesis by (simp add: stack_top_def)
  qed
qed

lemma saveDescription_flat:
  "flat (saveDescription st) = flat (st_nodes st)"
  by (simp add: saveDescription_def update_flat keeps_setDescription)

lemma parseLine_inv2:
  assumes "parse_inv2 st"
  shows "parse_inv2 (parseLine gen st line) \<and>
         map (\<lambda>e. (fst e, fst (snd e))) (flat (st_nodes (parseLine gen st line))) =
           map (\<lambda>e. (fst e, fst (snd e))) (flat (st_nodes st))
             @ headings_from gen (st_count st) [line] \<and>
         st_count (parseLine gen st line)
           = st_count st + length (headings_from gen (st_count st) [line])"
proof (cases "headingMatch line")
  case None
  have "parseLine gen st line = st
        \<or> parseLine gen st line = st\<lparr>st_desc := st_desc st @ [line]\<rparr>"
    using None by (simp add: parseLine_def)
  moreover have "parse_inv2 (st\<lparr>st_desc := st_desc st @ [line]\<rparr>)"
    using assms unfolding parse_inv2_def by auto
  ultimately show ?thesis using assms None by auto
next
  case (Some m)
  obtain lvl g where m: "m = (lvl, g)" by (cases m)
  define nodes1 where "nodes1 = saveDescription st"
  define stack1 where "stack1 = popStack lvl (st_stack st)"
  define n where "n = Node \<lparr>nodeId = gen (st_count st), title = trim g, description = None,
      level = lvl, collapsed = False,
      parentId = (if stack1 = [] then None else Some (fst (last stack1)))\<rparr> []"
  have f1: "flat nodes1 = flat (st_nodes st)" by (simp add: nodes1_def saveDescription_flat)
  have sm: "spine_match (st_stack st) (st_nodes st)"
    using assms unfolding parse_inv2_def by blast
  have s0: "spine_match (st_stack st) nodes1"
    using sm by (simp add: nodes1_def saveDescription_def update_spine keeps_setDescription)
  obtain zs where "st_stack st = stack1 @ zs"
    using popStack_prefix [of "st_stack st" lvl] by (auto simp: stack1_def)
  with s0 have s1: "spine_match stack1 nodes1" using spine_match_prefix by metis
  have r: "parseLine gen st line =
      \<lparr>st_nodes = pushAtDepth (length stack1) n nodes1,
       st_stack = stack1 @ [(nodeId (props n), level (props n))],
       st_current = True,
       st_desc = (if st_current st \<and> st_desc st \<noteq> [] then [] else st_desc st),
       st_count = st_count st + 1\<rparr>"
    using Some m by (simp add: parseLine_def Let_def nodes1_def stack1_def n_def)
  have fl: "flat (pushAtDepth (length stack1) n nodes1)
            = flat (st_nodes st) @ [(gen (st_count st), lvl, stack_top stack1)]"
    using push_flat [OF s1, of n] f1 by (simp add: n_def stack_top_def)
  have st: "st_stack st = stack_of (flat (st_nodes st)) []"
    and at: "attach_ok [] (flat (st_nodes st))"
    and ct: "st_count st = length (flat (st_nodes st))"
    using assms unfolding parse_inv2_def by blast+
  have top: "stack_top stack1 = nearest_smaller (flat (st_nodes st)) lvl"
    unfolding stack1_def st by (rule stack_top_nearest)
  have "stack_of (flat (st_nodes st) @ [(gen (st_count st), lvl, stack_top stack1)]) []
        = stack1 @ [(gen (st_count st), lvl)]"
    by (simp add: stack_of_append stack1_def st [symmetric])
  moreover have
    "attach_ok [] (flat (st_nodes st) @ [(gen (st_count st), lvl, stack_top stack1)])"
    using at top by (simp add: attach_ok_append)
  ultimately show ?thesis
    unfolding r parse_inv2_def
    using push_spine [OF s1, of n] fl ct Some m by (simp add: n_def)
qed

lemma headings_from_append:
  "headings_from gen k (xs @ ys) =
     headings_from gen k xs @ headings_from gen (k + length (headings_from gen k xs)) ys"
  by (induction gen k xs rule: headings_from.induct) (auto split: option.splits)

lemma foldl_parseLine_inv2:
  "parse_inv2 st \<Longrightarrow>
   parse_inv2 (foldl (parseLine gen) st ls) \<and>
   map (\<lambda>e. (fst e, fst (snd e))) (flat (st_nodes (foldl (parseLine gen) st ls))) =
     map (\<lambda>e. (fst e, fst (snd e))) (flat (st_nodes st)) @ headings_from gen (st_count st) ls"
proof (induction ls arbitrary: st)
  case Nil
  then show ?case by simp
next
  case (Cons line ls)
  note one = parseLine_inv2 [OF Cons.prems, of gen line]
  from Cons.IH [of "parseLine gen st line"] one
  show ?case
    using headings_from_append [of gen "st_count st" "[line]" ls] by simp
qed

lemma parse_attach:
  "map (\<lambda>e. (fst e, fst (snd e))) (flat (parse gen markdown))
     = headings_from gen 0 (split_nl markdown) \<and>
   attach_ok [] (flat (parse gen markdown))"
proof -
  let ?init = "\<lparr>st_nodes = [], st_stack = [], st_current = False, st_desc = [], st_count = 0\<rparr>"
  have "parse_inv2 ?init" by (simp add: parse_inv2_def)
  from foldl_parseLine_inv2 [OF this, of gen "split_nl markdown"]
  show ?thesis
    by (simp add: parse_def saveDescription_flat parse_inv2_def)
qed

text \<open>
  Claim C10. For every input text (and whatever ids \<open>generateId\<close> returns), in the forest
  that \<open>parse\<close> returns every root has \<open>parentId\<close> null and every other node has the id of
  the node that holds it, and every node's level is strictly greater than its parent's.
  The nodes in depth-first order are the headings of the text in document order, and each
  has as \<open>parentId\<close> the id of the nearest preceding heading of strictly smaller level.
  Levels are the marker counts: for the text \<open>### A\<close>, \<open>##### B\<close> the root has level 3 and
  its child level 5, so invariant 1 (root level 1, child level parent + 1) does not hold.
\<close>

theorem parse_structure:
  "parents_ok None (parse gen markdown) \<and> levels_inc 0 (parse gen markdown) \<and>
   map (\<lambda>e. (fst e, fst (snd e))) (flat (parse gen markdown))
     = headings_from gen 0 (split_nl markdown) \<and>
   attach_ok [] (flat (parse gen markdown)) \<and>
   map (\<lambda>n. (level (props n), map (\<lambda>c. level (props c)) (children n)))
     (parse gen ''### A\<newline>##### B'') = [(3, [5])] \<and>
   \<not> levels_ok 1 (parse gen ''### A\<newline>##### B'')"
proof -
  have e: "map (\<lambda>n. (level (props n), map (\<lambda>c. level (props c)) (children n)))
     (parse gen ''### A\<newline>##### B'') = [(3, [5])]"
    by (simp add: parse_def parseLine_def headingMatch_def isSpace_def isLineTerminator_def
        trim_def Let_def popStack_def pushAtDepth_def saveDescription_def)
  then obtain n where n: "parse gen ''### A\<newline>##### B'' = [n]" "level (props n) = 3"
    by auto
  have "\<not> levels_ok 1 [n]" using n(2) by (cases n) simp
  with e n(1) parse_inv_result [of gen markdown] parse_attach [of gen markdown]
  show ?thesis by simp
qed

theorem parse_structure_witness:
  "parents_ok None (parse (\<lambda>k. replicate (Suc k) CHR ''n'') ''# A\<newline>body\<newline>### B\<newline>## C'') \<and>
   levels_inc 0 (parse (\<lambda>k. replicate (Suc k) CHR ''n'') ''# A\<newline>body\<newline>### B\<newline>## C'') \<and>
   attach_ok [] (flat (parse (\<lambda>k. replicate (Suc k) CHR ''n'') ''# A\<newline>body\<newline>### B\<newline>## C''))"
  using parse_structure [of "\<lambda>k. replicate (Suc k) CHR ''n''" "''# A\<newline>body\<newline>### B\<newline>## C''"]
  by blast

text \<open>
  Claim C6, as amended. For a heading-only document in the serializer's form (each heading
  1 to 6 markers, one space and a non-empty title with no white space at its ends and no
  line terminator; consecutive headings separated by exactly one empty line), with any
  number of empty lines before and after it, \<open>serialize (parse text)\<close> is the document
  without those leading and trailing empty lines.
\<close>

theorem roundtrip_canonical:
  assumes "list_all heading_ok hs"
  shows "serialize (parse gen (join_nl (replicate a [] @ doc_lines hs @ replicate b [])))
         = join_nl (doc_lines hs)"
proof -
  let ?init = "\<lparr>st_nodes = [], st_stack = [], st_current = False, st_desc = [], st_count = 0\<rparr>"
  let ?ls = "replicate a [] @ doc_lines hs @ replicate b []"
  have "list_all (\<lambda>l. CHR 0x0A \<notin> set l) ?ls"
    using doc_lines_no_nl [OF assms] by (auto simp: list_all_iff)
  moreover have "?ls \<noteq> []" using doc_lines_ne by simp
  ultimately have sp: "split_nl (join_nl ?ls) = ?ls" by (simp add: split_join)
  have inv: "parse_inv ?init" by (simp add: parse_inv_def)
  have "foldl (parseLine gen) ?init ?ls = foldl (parseLine gen) ?init (doc_lines hs)"
    by (simp add: foldl_blank)
  with foldl_doc_lines [OF inv _ assms, of gen]
  have "serializeNodes (parse gen (join_nl ?ls)) = heading_lines hs"
    by (simp add: parse_def sp saveDescription_def)
  then have s: "serialize (parse gen (join_nl ?ls)) = trim (join_nl (heading_lines hs))"
    by (simp add: serialize_def)
  show ?thesis
  proof (cases "hs = []")
    case True
    then show ?thesis using s by (simp add: heading_lines_def trim_def)
  next
    case False
    from doc_hd_last [OF False assms] join_heading_lines [OF False] s
    show ?thesis by (simp add: trim_clean_nl)
  qed
qed

theorem roundtrip_canonical_witness:
  "serialize (parse (\<lambda>k. ''n'') ''\<newline># A\<newline>\<newline>## B c\<newline>\<newline>'') = ''# A\<newline>\<newline>## B c''"
proof -
  have ok: "list_all heading_ok [(1, ''A''), (2, ''B c'')]"
    by (simp add: heading_ok_def isSpace_def isLineTerminator_def)
  have d: "join_nl (doc_lines [(1, ''A''), (2, ''B c'')]) = ''# A\<newline>\<newline>## B c''"
    by (simp add: hline_def numeral_2_eq_2)
  have t: "join_nl (replicate (Suc 0) [] @ doc_lines [(1, ''A''), (2, ''B c'')]
             @ replicate (Suc (Suc 0)) []) = ''\<newline># A\<newline>\<newline>## B c\<newline>\<newline>''"
    by (simp add: hline_def numeral_2_eq_2)
  from roundtrip_canonical [OF ok, of "\<lambda>k. ''n''" "Suc 0" "Suc (Suc 0)"]
  show ?thesis unfolding d t .
qed

text \<open>
  Claim C6 as stated fails: \<open># A\<close> directly followed by the line \<open>## B\<close> is a heading-only
  document with nothing after its headings, and \<open>serialize\<close> puts an empty line between
  the two headings, which trimming the input does not.
\<close>

theorem roundtrip_counterexample:
  "serialize (parse (\<lambda>k. ''n'') ''# A\<newline>## B'') = ''# A\<newline>\<newline>## B'' \<and>
   serialize (parse (\<lambda>k. ''n'') ''# A\<newline>## B'') \<noteq> trim ''# A\<newline>## B''"
  by (simp add: parse_def parseLine_def headingMatch_def isSpace_def isLineTerminator_def
      trim_def Let_def popStack_def pushAtDepth_def saveDescription_def serialize_def)

end
